theory Spec2Isabelle
  imports Complex_Main "HOL-Library.Multiset" "HOL-Library.Sublist"
begin

section \<open>Strings\<close>

text \<open>
  A JavaScript string is a sequence of UTF-16 code units. It is modelled as a
  \<^typ>\<open>string\<close> in which every \<^typ>\<open>char\<close> is one code unit in the range 0..255
  (the Latin-1 part of Unicode): \<open>length\<close> is \<open>.length\<close> and \<open>!\<close> is \<open>charAt\<close>.
\<close>

definition newline :: char where
  "newline = CHR 0x0A"

definition toLowerCase_char :: "char \<Rightarrow> char" where
  "toLowerCase_char c =
     (let n = (of_char c :: nat)
      in if (65 \<le> n \<and> n \<le> 90) \<or> (192 \<le> n \<and> n \<le> 222 \<and> n \<noteq> 215)
         then char_of (n + 32) else c)"

definition toLowerCase :: "string \<Rightarrow> string" where
  "toLowerCase s = map toLowerCase_char s"

text \<open>The character class \<open>[a-z0-9]\<close>.\<close>

definition is_a_z_0_9 :: "char \<Rightarrow> bool" where
  "is_a_z_0_9 c =
     (let n = (of_char c :: nat) in (97 \<le> n \<and> n \<le> 122) \<or> (48 \<le> n \<and> n \<le> 57))"

text \<open>\<open>s.replace(/[^a-z0-9]/g, "")\<close>: every character outside the class is deleted.\<close>

definition strip_non_alnum :: "string \<Rightarrow> string" where
  "strip_non_alnum s = filter is_a_z_0_9 s"

fun startsWith :: "string \<Rightarrow> string \<Rightarrow> bool" where
  "startsWith s [] = True"
| "startsWith [] (p # ps) = False"
| "startsWith (c # cs) (p # ps) = (c = p \<and> startsWith cs ps)"

text \<open>\<open>s.includes(t)\<close>: \<open>t\<close> occurs in \<open>s\<close> at some position.\<close>

fun includes_str :: "string \<Rightarrow> string \<Rightarrow> bool" where
  "includes_str [] t = (t = [])"
| "includes_str (c # cs) t = (startsWith (c # cs) t \<or> includes_str cs t)"

section \<open>Edit distance\<close>

text \<open>
  The array of arrays \<open>matrix\<close> is a map from the row index and the column index to
  the cell; a cell that was never assigned is \<open>None\<close>. An assignment
  \<open>matrix[i][j] = v\<close> is \<open>put\<close>, a read \<open>matrix[i][j]\<close> is \<open>cell\<close>.
\<close>

type_synonym matrix = "nat \<Rightarrow> nat \<Rightarrow> nat option"

definition cell :: "matrix \<Rightarrow> nat \<Rightarrow> nat \<Rightarrow> nat" where
  "cell m i j = the (m i j)"

definition put :: "matrix \<Rightarrow> nat \<Rightarrow> nat \<Rightarrow> nat \<Rightarrow> matrix" where
  "put m i j v = m(i := (m i)(j \<mapsto> v))"

text \<open>The body of the inner loop of \<open>levenshteinDistance\<close>, at row \<open>i\<close> and column \<open>j\<close>.\<close>

definition fill_cell :: "string \<Rightarrow> string \<Rightarrow> nat \<Rightarrow> nat \<Rightarrow> matrix \<Rightarrow> matrix" where
  "fill_cell str1 str2 i j m =
     (if str2 ! (i - 1) = str1 ! (j - 1)
      then put m i j (cell m (i - 1) (j - 1))
      else put m i j (min (cell m (i - 1) (j - 1) + 1)
                       (min (cell m i (j - 1) + 1) (cell m (i - 1) j + 1))))"

text \<open>The inner loop \<open>for (j = 1; j <= str1.length; j++)\<close>.\<close>

definition fill_row :: "string \<Rightarrow> string \<Rightarrow> nat \<Rightarrow> matrix \<Rightarrow> matrix" where
  "fill_row str1 str2 i m = fold (fill_cell str1 str2 i) [1..<Suc (length str1)] m"

definition levenshteinDistance :: "string \<Rightarrow> string \<Rightarrow> nat" where
  "levenshteinDistance str1 str2 =
     (let matrix0 = fold (\<lambda>i m. m(i := [0 \<mapsto> i])) [0..<Suc (length str2)] (\<lambda>_. Map.empty);
          matrix1 = fold (\<lambda>j m. put m 0 j j) [0..<Suc (length str1)] matrix0;
          matrix2 = fold (fill_row str1 str2) [1..<Suc (length str2)] matrix1
      in cell matrix2 (length str2) (length str1))"

section \<open>Fuzzy matching of channel names\<close>

text \<open>
  A score is a JavaScript number. Every score the program computes is \<open>1.0\<close>,
  \<open>0.8\<close> or the quotient of two natural numbers that are at most the length of a
  name. Two such quotients, or such a quotient and \<open>0.6\<close>, differ by much more than
  the rounding of a double unless they are equal, so the comparisons of the program
  agree with those of the exact values: scores are modelled as rationals, and
  \<open>0.8\<close>, \<open>0.6\<close> as \<open>4/5\<close>, \<open>6/10\<close>.
\<close>

definition fuzzyMatch :: "string \<Rightarrow> string \<Rightarrow> rat" where
  "fuzzyMatch str1 str2 =
     (let s1 = strip_non_alnum (toLowerCase str1);
          s2 = strip_non_alnum (toLowerCase str2)
      in if s1 = s2 then 1
         else if includes_str s1 s2 \<or> includes_str s2 s1 then 4 / 5
         else
           (let longer = (if length s1 > length s2 then s1 else s2);
                shorter = (if length s1 > length s2 then s2 else s1)
            in if length longer = 0 then 1
               else
                 (let editDistance = levenshteinDistance longer shorter
                  in (of_nat (length longer) - of_nat editDistance) / of_nat (length longer))))"

section \<open>The matcher\<close>

record playlist_channel =
  name :: string
  tvgId :: string
  streamUrl :: string

text \<open>The field \<open>id\<close> of an EPG channel is \<open>epg_id\<close> here.\<close>

record epg_channel =
  epg_id :: string
  displayName :: string

record match_result =
  playlistName :: string
  playlistTvgId :: string
  epgId :: string
  epgName :: string
  score :: rat
  match_streamUrl :: string

record match_output =
  matches :: "match_result list"
  unmatched :: "playlist_channel list"

text \<open>
  The body of the inner \<open>forEach\<close> of \<open>matchChannels\<close>. The state is the pair of
  \<open>bestMatch\<close> (\<open>None\<close> for \<open>null\<close>) and \<open>bestScore\<close>.
\<close>

definition consider_candidate ::
  "playlist_channel \<Rightarrow> epg_channel \<Rightarrow> epg_channel option \<times> rat \<Rightarrow> epg_channel option \<times> rat" where
  "consider_candidate pChannel eChannel best =
     (let score = fuzzyMatch (name pChannel) (displayName eChannel)
      in if score > snd best \<and> score > 6 / 10 then (Some eChannel, score) else best)"

definition best_candidate ::
  "playlist_channel \<Rightarrow> epg_channel list \<Rightarrow> epg_channel option \<times> rat" where
  "best_candidate pChannel epgChannels =
     fold (consider_candidate pChannel) epgChannels (None, 0)"

text \<open>The body of the outer \<open>forEach\<close>: one playlist channel is pushed to one of the two arrays.\<close>

definition match_channel ::
  "epg_channel list \<Rightarrow> playlist_channel \<Rightarrow> match_output \<Rightarrow> match_output" where
  "match_channel epgChannels pChannel out =
     (case best_candidate pChannel epgChannels of
        (Some bestMatch, bestScore) \<Rightarrow>
          out\<lparr>matches := matches out @
            [\<lparr>playlistName = name pChannel,
              playlistTvgId = tvgId pChannel,
              epgId = epg_id bestMatch,
              epgName = displayName bestMatch,
              score = bestScore,
              match_streamUrl = streamUrl pChannel\<rparr>]\<rparr>
      | (None, bestScore) \<Rightarrow> out\<lparr>unmatched := unmatched out @ [pChannel]\<rparr>)"

definition matchChannels :: "playlist_channel list \<Rightarrow> epg_channel list \<Rightarrow> match_output" where
  "matchChannels playlistChannels epgChannels =
     fold (match_channel epgChannels) playlistChannels \<lparr>matches = [], unmatched = []\<rparr>"

section \<open>The corrected playlist\<close>

definition dquote :: char where
  "dquote = CHR 0x22"

definition m3u_header :: string where
  "m3u_header = ''#EXTM3U url-tvg='' @ [dquote] @ ''fr_epg.xml'' @ [dquote]"

definition extinf_with_id :: "string \<Rightarrow> string \<Rightarrow> string" where
  "extinf_with_id ident label =
     ''#EXTINF:-1 tvg-id='' @ [dquote] @ ident @ [dquote] @ '','' @ label"

definition extinf_without_id :: "string \<Rightarrow> string" where
  "extinf_without_id label = ''#EXTINF:-1,'' @ label"

definition generateCorrectedM3U :: "match_result list \<Rightarrow> playlist_channel list \<Rightarrow> string" where
  "generateCorrectedM3U ms us =
     (let m3u0 = m3u_header @ [newline];
          m3u1 = fold (\<lambda>match m3u.
                   (m3u @ extinf_with_id (epgId match) (playlistName match) @ [newline])
                     @ match_streamUrl match @ [newline]) ms m3u0;
          m3u2 = fold (\<lambda>channel m3u.
                   (m3u @ extinf_without_id (name channel) @ [newline])
                     @ streamUrl channel @ [newline]) us m3u1
      in m3u2)"

section \<open>Parsing the playlist\<close>

text \<open>\<open>content.split("\n")\<close>: the pieces between the line feeds, at least one piece.\<close>

fun split_newline :: "string \<Rightarrow> string list" where
  "split_newline [] = [[]]"
| "split_newline (c # cs) =
     (if c = newline then [] # split_newline cs
      else (case split_newline cs of [] \<Rightarrow> [[c]] | l # ls \<Rightarrow> (c # l) # ls))"

text \<open>
  White space and line terminators of JavaScript in the range of the model: tab, line
  feed, vertical tab, form feed, carriage return, space and no-break space. They are
  what \<open>trim\<close> removes and what \<open>\s\<close> matches.
\<close>

definition is_space :: "char \<Rightarrow> bool" where
  "is_space c =
     (let n = (of_char c :: nat)
      in n = 9 \<or> n = 10 \<or> n = 11 \<or> n = 12 \<or> n = 13 \<or> n = 32 \<or> n = 160)"

definition trim :: "string \<Rightarrow> string" where
  "trim s = rev (dropWhile is_space (rev (dropWhile is_space s)))"

text \<open>The characters that \<open>.\<close> does not match: line feed and carriage return.\<close>

definition is_line_terminator :: "char \<Rightarrow> bool" where
  "is_line_terminator c = (let n = (of_char c :: nat) in n = 10 \<or> n = 13)"

text \<open>The text after the first occurrence of a pattern.\<close>

fun find_after :: "string \<Rightarrow> string \<Rightarrow> string option" where
  "find_after pat [] = (if pat = [] then Some [] else None)"
| "find_after pat (c # cs) =
     (if startsWith (c # cs) pat then Some (drop (length pat) (c # cs))
      else find_after pat cs)"

text \<open>
  \<open>line.match(/tvg-id="([^"]*)"/)\<close>, the captured group: the text between the first
  \<open>tvg-id="\<close> and the next double quote; no match when there is no such quote.
\<close>

definition tvgIdMatch :: "string \<Rightarrow> string option" where
  "tvgIdMatch line =
     (case find_after (''tvg-id='' @ [dquote]) line of
        None \<Rightarrow> None
      | Some rest \<Rightarrow>
          if dquote \<in> set rest then Some (takeWhile (\<lambda>c. c \<noteq> dquote) rest) else None)"

text \<open>
  \<open>line.match(/,(.*)$/)\<close>, the captured group: the text after the first comma that
  is followed by no line terminator up to the end of the line.
\<close>

fun nameMatch :: "string \<Rightarrow> string option" where
  "nameMatch [] = None"
| "nameMatch (c # cs) =
     (if c = CHR '','' \<and> \<not> list_ex is_line_terminator cs then Some cs else nameMatch cs)"

text \<open>The trailing display name of a directive line, \<open>""\<close> without a match.\<close>

definition name_of :: "string \<Rightarrow> string" where
  "name_of line = (case nameMatch line of Some g \<Rightarrow> trim g | None \<Rightarrow> [])"

text \<open>\<open>lines[i + 1]?.trim() || ""\<close>.\<close>

definition next_line :: "string list \<Rightarrow> nat \<Rightarrow> string" where
  "next_line lines i = (if i + 1 < length lines then trim (lines ! (i + 1)) else [])"

text \<open>The body of the loop of \<open>parseM3U\<close> at index \<open>i\<close>.\<close>

definition parse_line :: "string list \<Rightarrow> nat \<Rightarrow> playlist_channel list \<Rightarrow> playlist_channel list" where
  "parse_line lines i channels =
     (let line = trim (lines ! i)
      in if startsWith line ''#EXTINF:''
         then
           (let tvgId = (case tvgIdMatch line of Some g \<Rightarrow> g | None \<Rightarrow> []);
                name = name_of line;
                streamUrl = next_line lines i
            in if name \<noteq> [] \<and> streamUrl \<noteq> []
               then channels @ [\<lparr>name = name, tvgId = tvgId, streamUrl = streamUrl\<rparr>]
               else channels)
         else channels)"

definition parseM3U :: "string \<Rightarrow> playlist_channel list" where
  "parseM3U content =
     (let lines = split_newline content
      in fold (parse_line lines) [0..<length lines] [])"

section \<open>The manual mappings\<close>

text \<open>
  A value read from the object \<open>manualMappings\<close>: \<open>undefined\<close>, a string of the
  table, or what the object inherits from \<open>Object.prototype\<close> under that key (a
  built-in function, or the prototype itself under \<open>__proto__\<close>).
\<close>

datatype jsval = Undefined | Str string | Inherited string

definition truthy :: "jsval \<Rightarrow> bool" where
  "truthy v = (case v of Undefined \<Rightarrow> False | Str s \<Rightarrow> s \<noteq> [] | Inherited k \<Rightarrow> True)"

text \<open>\<open>a || b\<close>.\<close>

definition js_or :: "jsval \<Rightarrow> jsval \<Rightarrow> jsval" where
  "js_or a b = (if truthy a then a else b)"

text \<open>The conversion to a string in a template literal, as Node prints built-in objects.\<close>

definition to_text :: "jsval \<Rightarrow> string" where
  "to_text v =
     (case v of
        Undefined \<Rightarrow> ''undefined''
      | Str s \<Rightarrow> s
      | Inherited k \<Rightarrow>
          if k = ''__proto__'' then ''[object Object]''
          else ''function '' @ (if k = ''constructor'' then ''Object'' else k)
                 @ ''() { [native code] }'')"

definition manualMappings :: "(string \<times> string) list" where
  "manualMappings =
     [(''TF1'', ''TF1.fr''),
      (''TF1 HD'', ''TF1.fr''),
      (''France 2'', ''France2.fr''),
      (''France 2 HD'', ''France2.fr''),
      (''France 3'', ''France3.fr''),
      (''France 3 HD'', ''France3.fr''),
      (''France 4'', ''France4.fr''),
      (''France 4 HD'', ''France4.fr''),
      (''France 5'', ''France5.fr''),
      (''France 5 HD'', ''France5.fr''),
      (''M6'', ''M6.fr''),
      (''Arte'', ''Arte.fr''),
      (''BFM TV'', ''BFMTV.fr''),
      (''BFMTV'', ''BFMTV.fr''),
      (''CNews'', ''CNews.fr''),
      (''CNEWS'', ''CNews.fr''),
      (''LCI'', ''LCI.fr''),
      (''RMC Story'', ''RMCStory.fr''),
      (''RMC D'' @ [CHR 0xE9] @ ''couverte'', ''RMCDecouverte.fr''),
      (''W9'', ''W9.fr''),
      (''TMC'', ''TMC.fr''),
      (''NT1'', ''NT1.fr''),
      (''NRJ 12'', ''NRJ12.fr''),
      (''Canal+'', ''CanalPlus.fr''),
      (''Canal+ France'', ''CanalPlus.fr''),
      (''Euronews'', ''EuronewsFrench.fr''),
      (''France 24'', ''France24.fr''),
      (''France 24 French'', ''France24.fr''),
      (''TV5Monde'', ''TV5MondeFranceBelgiqueSuisseMonaco.fr''),
      (''Gulli'', ''Gulli.fr''),
      (''L'' @ [CHR 0x27] @ ''Equipe'', ''LEquipe.fr''),
      (''Cherie 25'', ''Cherie25.fr''),
      (''Ch'' @ [CHR 0xE9] @ ''rie 25'', ''Cherie25.fr''),
      (''6ter'', ''6ter.fr'')]"

text \<open>The property names that every object literal inherits from \<open>Object.prototype\<close>.\<close>

definition object_prototype_keys :: "string list" where
  "object_prototype_keys =
     [''constructor'', ''__defineGetter__'', ''__defineSetter__'', ''hasOwnProperty'',
      ''__lookupGetter__'', ''__lookupSetter__'', ''isPrototypeOf'',
      ''propertyIsEnumerable'', ''toString'', ''valueOf'', ''__proto__'',
      ''toLocaleString'']"

text \<open>
  \<open>manualMappings[key]\<close>: the own property when the table has the key, else the
  inherited property when \<open>Object.prototype\<close> has it, else \<open>undefined\<close>.
\<close>

definition manualMappings_get :: "string \<Rightarrow> jsval" where
  "manualMappings_get key =
     (case map_of manualMappings key of
        Some v \<Rightarrow> Str v
      | None \<Rightarrow> if key \<in> set object_prototype_keys then Inherited key else Undefined)"

text \<open>
  One attempt of the regular expression \<open>\s*\([^)]*\)\<close> (or the one with square
  brackets) at the start of \<open>s\<close>: white space, the opening character, any characters
  other than the closing one, the closing character. The result is the text after
  the match.
\<close>

definition match_group :: "char \<Rightarrow> char \<Rightarrow> string \<Rightarrow> string option" where
  "match_group opening closing s =
     (case dropWhile is_space s of
        [] \<Rightarrow> None
      | c # cs \<Rightarrow>
          if c = opening \<and> closing \<in> set cs
          then Some (tl (dropWhile (\<lambda>d. d \<noteq> closing) cs))
          else None)"

text \<open>\<open>s.replace(/\s*\([^)]*\)/g, "")\<close>: every match, from left to right, is deleted.\<close>

function remove_groups :: "char \<Rightarrow> char \<Rightarrow> string \<Rightarrow> string" where
  "remove_groups opening closing [] = []"
| "remove_groups opening closing (c # cs) =
     (case match_group opening closing (c # cs) of
        Some r \<Rightarrow> remove_groups opening closing r
      | None \<Rightarrow> c # remove_groups opening closing cs)"
  by pat_completeness auto
termination
proof (relation "measure (\<lambda>(opening, closing, s). length s)", goal_cases)
  case 1
  show ?case by simp
next
  case (2 a b c cs)
  show ?case by simp
next
  case (3 a b c cs r)
  then obtain d ds where d: "dropWhile is_space (c # cs) = d # ds"
    by (cases "dropWhile is_space (c # cs)") (simp_all add: match_group_def)
  have r: "r = tl (dropWhile (\<lambda>x. x \<noteq> b) ds)"
    using 3 d by (simp add: match_group_def split: if_splits)
  have "length r \<le> length ds"
    unfolding r using length_dropWhile_le [of "\<lambda>x. x \<noteq> b" ds] by simp
  moreover have "length (d # ds) \<le> length (c # cs)"
    using length_dropWhile_le [of is_space "c # cs"] d by simp
  ultimately show ?case by simp
qed

definition clean_name :: "string \<Rightarrow> string" where
  "clean_name s =
     trim (remove_groups (CHR ''['') (CHR '']'') (remove_groups (CHR ''('') (CHR '')'') s))"

record mapped_channel =
  originalName :: string
  cleanName :: string
  mapped_tvgId :: jsval
  mapped_streamUrl :: string
  hasTvgId :: bool

text \<open>The body of the loop of the second \<open>parseM3U\<close>, which applies the manual mappings.\<close>

definition parse_line_mapped ::
  "string list \<Rightarrow> nat \<Rightarrow> mapped_channel list \<Rightarrow> mapped_channel list" where
  "parse_line_mapped lines i channels =
     (let line = trim (lines ! i)
      in if startsWith line ''#EXTINF:''
         then
           (let name = name_of line;
                streamUrl = next_line lines i
            in if name \<noteq> [] \<and> streamUrl \<noteq> []
               then
                 (let cleanName = clean_name name;
                      tvgId = js_or (manualMappings_get cleanName)
                                (js_or (manualMappings_get name) (Str []))
                  in channels @
                       [\<lparr>originalName = name,
                         cleanName = cleanName,
                         mapped_tvgId = tvgId,
                         mapped_streamUrl = streamUrl,
                         hasTvgId = truthy tvgId\<rparr>])
               else channels)
         else channels)"

definition parseM3U_mapped :: "string \<Rightarrow> mapped_channel list" where
  "parseM3U_mapped content =
     (let lines = split_newline content
      in fold (parse_line_mapped lines) [0..<length lines] [])"

section \<open>The clean playlist\<close>

record clean_output =
  m3u :: string
  goodChannels :: "mapped_channel list"
  unknownChannels :: "mapped_channel list"

definition generateCleanM3U :: "mapped_channel list \<Rightarrow> clean_output" where
  "generateCleanM3U channels =
     (let good = filter (\<lambda>ch. hasTvgId ch) channels;
          unknown = filter (\<lambda>ch. \<not> hasTvgId ch) channels;
          m3u0 = m3u_header @ [newline, newline];
          m3u1 = m3u0 @ ''# CHANNELS WITH EPG'' @ [newline];
          m3u2 = fold (\<lambda>channel m3u.
                   (m3u @ extinf_with_id (to_text (mapped_tvgId channel)) (originalName channel)
                      @ [newline])
                     @ mapped_streamUrl channel @ [newline]) good m3u1;
          m3u3 = m3u2 @ [newline] @ ''# CHANNELS WITHOUT EPG'' @ [newline];
          m3u4 = fold (\<lambda>channel m3u.
                   (m3u @ extinf_without_id (originalName channel) @ [newline])
                     @ mapped_streamUrl channel @ [newline]) (take 10 unknown) m3u3
      in \<lparr>m3u = m3u4, goodChannels = good, unknownChannels = unknown\<rparr>)"

section \<open>Notions used to state the properties\<close>

text \<open>
  The value that the loops of \<open>levenshteinDistance\<close> store in row \<open>i\<close>, column \<open>j\<close>,
  as a recursion on the two indices.
\<close>

fun ed :: "string \<Rightarrow> string \<Rightarrow> nat \<Rightarrow> nat \<Rightarrow> nat" where
  "ed s1 s2 0 j = j"
| "ed s1 s2 (Suc i) 0 = Suc i"
| "ed s1 s2 (Suc i) (Suc j) =
     (if s2 ! i = s1 ! j then ed s1 s2 i j
      else min (ed s1 s2 i j + 1) (min (ed s1 s2 (Suc i) j + 1) (ed s1 s2 i (Suc j) + 1)))"

text \<open>The playlist channel that a match result was built from.\<close>

definition source_channel :: "match_result \<Rightarrow> playlist_channel" where
  "source_channel r =
     \<lparr>name = playlistName r, tvgId = playlistTvgId r, streamUrl = match_streamUrl r\<rparr>"

text \<open>\<open>bestMatch\<close> is not \<open>null\<close> after the inner loop.\<close>

definition is_matched :: "epg_channel list \<Rightarrow> playlist_channel \<Rightarrow> bool" where
  "is_matched epgChannels pChannel = (fst (best_candidate pChannel epgChannels) \<noteq> None)"

text \<open>The two lines of a channel in the corrected playlist.\<close>

definition match_lines :: "match_result \<Rightarrow> string list" where
  "match_lines r = [extinf_with_id (epgId r) (playlistName r), match_streamUrl r]"

definition unmatched_lines :: "playlist_channel \<Rightarrow> string list" where
  "unmatched_lines c = [extinf_without_id (name c), streamUrl c]"

text \<open>The two lines of a channel in the clean playlist.\<close>

definition good_lines :: "mapped_channel \<Rightarrow> string list" where
  "good_lines ch =
     [extinf_with_id (to_text (mapped_tvgId ch)) (originalName ch), mapped_streamUrl ch]"

definition unknown_lines :: "mapped_channel \<Rightarrow> string list" where
  "unknown_lines ch = [extinf_without_id (originalName ch), mapped_streamUrl ch]"

text \<open>A text made of the given lines, each one ended by a line feed.\<close>

definition unlines :: "string list \<Rightarrow> string" where
  "unlines ls = concat (map (\<lambda>l. l @ [newline]) ls)"

text \<open>The match result that \<open>matchChannels\<close> pushes for a matched playlist channel.\<close>

definition result_for :: "epg_channel list \<Rightarrow> playlist_channel \<Rightarrow> match_result" where
  "result_for epgChannels pChannel =
     \<lparr>playlistName = name pChannel,
      playlistTvgId = tvgId pChannel,
      epgId = epg_id (the (fst (best_candidate pChannel epgChannels))),
      epgName = displayName (the (fst (best_candidate pChannel epgChannels))),
      score = snd (best_candidate pChannel epgChannels),
      match_streamUrl = streamUrl pChannel\<rparr>"

section \<open>Example data\<close>

definition tf1_channel :: playlist_channel where
  "tf1_channel = \<lparr>name = ''TF1'', tvgId = [], streamUrl = ''http://example.org/tf1.m3u8''\<rparr>"

definition unknown_channel :: playlist_channel where
  "unknown_channel =
     \<lparr>name = ''Zone X'', tvgId = [], streamUrl = ''http://example.org/x.m3u8''\<rparr>"

definition arte_hd_channel :: playlist_channel where
  "arte_hd_channel =
     \<lparr>name = ''Arte HD'', tvgId = [], streamUrl = ''http://example.org/arte.m3u8''\<rparr>"

definition tf1_epg :: epg_channel where
  "tf1_epg = \<lparr>epg_id = ''TF1.fr'', displayName = ''TF1''\<rparr>"

definition tf1_lower_epg :: epg_channel where
  "tf1_lower_epg = \<lparr>epg_id = ''tf1.other'', displayName = ''tf1''\<rparr>"

definition tf1_hd_epg :: epg_channel where
  "tf1_hd_epg = \<lparr>epg_id = ''TF1HD.fr'', displayName = ''TF1 HD''\<rparr>"

definition artefr_epg :: epg_channel where
  "artefr_epg = \<lparr>epg_id = ''Arte.fr'', displayName = ''ArteFR''\<rparr>"

definition tf1_result :: match_result where
  "tf1_result =
     \<lparr>playlistName = ''TF1'', playlistTvgId = [], epgId = ''TF1.fr'', epgName = ''TF1'',
      score = 1, match_streamUrl = ''http://example.org/tf1.m3u8''\<rparr>"

text \<open>
  A playlist of five lines: a complete entry, an entry with an empty name, and an entry
  without a following line.
\<close>

definition sample_playlist :: string where
  "sample_playlist =
     ''#EXTINF:-1,TF1'' @ [newline] @ ''http://a'' @ [newline] @
     ''#EXTINF:-1,'' @ [newline] @ ''http://b'' @ [newline] @ ''#EXTINF:-1,M6''"

text \<open>A playlist in which a directive line follows a directive line.\<close>

definition directive_pair :: string where
  "directive_pair =
     ''#EXTINF:-1,A'' @ [newline] @ ''#EXTINF:-1,B'' @ [newline] @ ''http://b''"

text \<open>
  A playlist whose directive has a comma inside an attribute value before the
  \<open>tvg-id\<close> attribute, and an EPG channel whose identifier holds a line feed.
\<close>

definition attr_comma_playlist :: string where
  "attr_comma_playlist =
     ''#EXTINF:-1 tvg-name='' @ [CHR 0x22] @ ''a,b'' @ [CHR 0x22] @ '' tvg-id='' @ [CHR 0x22]
       @ ''TF1.fr'' @ [CHR 0x22] @ '',TF1'' @ [CHR 0x0A] @ ''http://a''"

definition linefeed_epg :: epg_channel where
  "linefeed_epg = \<lparr>epg_id = ''TF1'' @ [CHR 0x0A] @ ''fr'', displayName = ''TF1''\<rparr>"

definition mapped_tf1 :: mapped_channel where
  "mapped_tf1 =
     \<lparr>originalName = ''TF1 HD (1080p)'', cleanName = ''TF1 HD'', mapped_tvgId = Str ''TF1.fr'',
      mapped_streamUrl = ''http://a'', hasTvgId = True\<rparr>"

definition mapped_unknown :: mapped_channel where
  "mapped_unknown =
     \<lparr>originalName = ''Zone X'', cleanName = ''Zone X'', mapped_tvgId = Str [],
      mapped_streamUrl = ''http://x'', hasTvgId = False\<rparr>"

section \<open>The loops of the edit distance compute \<open>ed\<close>\<close>

lemma ed_col0 [simp]: "ed s1 s2 i 0 = i"
  by (cases i) simp_all

lemma init_rows:
  "fold (\<lambda>i m. m(i := [0 \<mapsto> i])) [0..<k] m0 =
     (\<lambda>i. if i < k then [0 \<mapsto> i] else m0 i)"
proof (induction k)
  case 0
  show ?case by simp
next
  case (Suc k)
  have "fold (\<lambda>i m. m(i := [0 \<mapsto> i])) [0..<Suc k] m0
        = (fold (\<lambda>i m. m(i := [0 \<mapsto> i])) [0..<k] m0)(k := [0 \<mapsto> k])"
    by simp
  also have "\<dots> = (\<lambda>i. if i < k then [0 \<mapsto> i] else m0 i)(k := [0 \<mapsto> k])"
    by (simp only: Suc)
  also have "\<dots> = (\<lambda>i. if i < Suc k then [0 \<mapsto> i] else m0 i)"
    by (auto simp: fun_eq_iff)
  finally show ?case .
qed

lemma init_row0:
  "fold (\<lambda>j m. put m 0 j j) [0..<k] m =
     m(0 := (\<lambda>j. if j < k then Some j else m 0 j))"
proof (induction k)
  case 0
  show ?case by (simp add: fun_eq_iff)
next
  case (Suc k)
  have "fold (\<lambda>j m. put m 0 j j) [0..<Suc k] m
        = put (fold (\<lambda>j m. put m 0 j j) [0..<k] m) 0 k k"
    by simp
  also have "\<dots> = put (m(0 := (\<lambda>j. if j < k then Some j else m 0 j))) 0 k k"
    by (simp only: Suc)
  also have "\<dots> = m(0 := (\<lambda>j. if j < Suc k then Some j else m 0 j))"
    by (auto simp: fun_eq_iff put_def)
  finally show ?case .
qed

lemma fill_cell_other [simp]: "i' \<noteq> i \<Longrightarrow> fill_cell s1 s2 i j m i' = m i'"
  by (simp add: fill_cell_def put_def)

lemma fill_cell_same_row_other [simp]:
  "j' \<noteq> j \<Longrightarrow> fill_cell s1 s2 i j m i j' = m i j'"
  by (simp add: fill_cell_def put_def)

lemma fill_cell_value:
  assumes "m i j = Some (ed s1 s2 i j)"
    and "m i (Suc j) = Some (ed s1 s2 i (Suc j))"
    and "m (Suc i) j = Some (ed s1 s2 (Suc i) j)"
  shows "fill_cell s1 s2 (Suc i) (Suc j) m (Suc i) (Suc j) = Some (ed s1 s2 (Suc i) (Suc j))"
  using assms by (simp add: fill_cell_def put_def cell_def)

lemma fill_row_prefix:
  assumes prev: "\<And>j. j \<le> k \<Longrightarrow> m i j = Some (ed s1 s2 i j)"
    and first: "m (Suc i) 0 = Some (Suc i)"
  shows "(\<forall>j \<le> k. fold (fill_cell s1 s2 (Suc i)) [1..<Suc k] m (Suc i) j
                      = Some (ed s1 s2 (Suc i) j))
       \<and> (\<forall>i'. i' \<noteq> Suc i \<longrightarrow> fold (fill_cell s1 s2 (Suc i)) [1..<Suc k] m i' = m i')
       \<and> (\<forall>j > k. fold (fill_cell s1 s2 (Suc i)) [1..<Suc k] m (Suc i) j = m (Suc i) j)"
  using prev
proof (induction k)
  case 0
  show ?case using first by simp
next
  case (Suc k)
  let ?m = "fold (fill_cell s1 s2 (Suc i)) [1..<Suc k] m"
  have ih: "(\<forall>j \<le> k. ?m (Suc i) j = Some (ed s1 s2 (Suc i) j))
       \<and> (\<forall>i'. i' \<noteq> Suc i \<longrightarrow> ?m i' = m i')
       \<and> (\<forall>j > k. ?m (Suc i) j = m (Suc i) j)"
    using Suc.IH Suc.prems by simp
  have step: "fold (fill_cell s1 s2 (Suc i)) [1..<Suc (Suc k)] m
              = fill_cell s1 s2 (Suc i) (Suc k) ?m"
    by simp
  have up: "?m i k = Some (ed s1 s2 i k)" "?m i (Suc k) = Some (ed s1 s2 i (Suc k))"
    using ih Suc.prems by simp_all
  have left: "?m (Suc i) k = Some (ed s1 s2 (Suc i) k)"
    using ih by simp
  have new: "fill_cell s1 s2 (Suc i) (Suc k) ?m (Suc i) (Suc k)
             = Some (ed s1 s2 (Suc i) (Suc k))"
    by (rule fill_cell_value [OF up(1) up(2) left])
  show ?case
    unfolding step
  proof (intro conjI allI impI)
    fix j assume "j \<le> Suc k"
    show "fill_cell s1 s2 (Suc i) (Suc k) ?m (Suc i) j = Some (ed s1 s2 (Suc i) j)"
    proof (cases "j = Suc k")
      case True
      then show ?thesis using new by simp
    next
      case False
      then have "j \<le> k" using \<open>j \<le> Suc k\<close> by simp
      then show ?thesis using False ih by simp
    qed
  next
    fix i' assume "i' \<noteq> Suc i"
    then show "fill_cell s1 s2 (Suc i) (Suc k) ?m i' = m i'"
      using ih by simp
  next
    fix j assume "Suc k < j"
    then show "fill_cell s1 s2 (Suc i) (Suc k) ?m (Suc i) j = m (Suc i) j"
      using ih by simp
  qed
qed

lemma fill_rows:
  assumes row0: "\<And>j. j \<le> length s1 \<Longrightarrow> m 0 j = Some j"
    and col0: "\<And>i. i \<le> n \<Longrightarrow> m i 0 = Some i"
  shows "k \<le> n \<Longrightarrow>
         (\<forall>i \<le> k. \<forall>j \<le> length s1.
            fold (fill_row s1 s2) [1..<Suc k] m i j = Some (ed s1 s2 i j))
       \<and> (\<forall>i > k. fold (fill_row s1 s2) [1..<Suc k] m i = m i)"
proof (induction k)
  case 0
  show ?case using row0 by simp
next
  case (Suc k)
  let ?m = "fold (fill_row s1 s2) [1..<Suc k] m"
  have ih: "\<forall>i \<le> k. \<forall>j \<le> length s1. ?m i j = Some (ed s1 s2 i j)"
    and rest: "\<forall>i > k. ?m i = m i"
    using Suc.IH Suc.prems by simp_all
  have step: "fold (fill_row s1 s2) [1..<Suc (Suc k)] m = fill_row s1 s2 (Suc k) ?m"
    by simp
  have prev: "\<And>j. j \<le> length s1 \<Longrightarrow> ?m k j = Some (ed s1 s2 k j)"
    using ih by simp
  have first: "?m (Suc k) 0 = Some (Suc k)"
    using rest col0 Suc.prems by simp
  note row = fill_row_prefix [of "length s1" ?m k s1 s2, OF prev first, folded fill_row_def]
  show ?case
    unfolding step
  proof (intro conjI allI impI)
    fix i j assume "i \<le> Suc k" "j \<le> length s1"
    show "fill_row s1 s2 (Suc k) ?m i j = Some (ed s1 s2 i j)"
    proof (cases "i = Suc k")
      case True
      then show ?thesis using row \<open>j \<le> length s1\<close> by simp
    next
      case False
      then have "i \<le> k" using \<open>i \<le> Suc k\<close> by simp
      then show ?thesis using False row ih \<open>j \<le> length s1\<close> by simp
    qed
  next
    fix i assume "Suc k < i"
    then show "fill_row s1 s2 (Suc k) ?m i = m i"
      using row rest by simp
  qed
qed

lemma levenshteinDistance_ed:
  "levenshteinDistance s1 s2 = ed s1 s2 (length s2) (length s1)"
proof -
  let ?m0 = "fold (\<lambda>i m. m(i := [0 \<mapsto> i])) [0..<Suc (length s2)] (\<lambda>_. Map.empty)"
  let ?m1 = "fold (\<lambda>j m. put m 0 j j) [0..<Suc (length s1)] ?m0"
  have row0: "\<And>j. j \<le> length s1 \<Longrightarrow> ?m1 0 j = Some j"
    by (simp add: init_row0 del: upt_Suc)
  have col0: "\<And>i. i \<le> length s2 \<Longrightarrow> ?m1 i 0 = Some i"
    by (simp add: init_row0 init_rows del: upt_Suc)
  have "fold (fill_row s1 s2) [1..<Suc (length s2)] ?m1 (length s2) (length s1)
        = Some (ed s1 s2 (length s2) (length s1))"
    using fill_rows [of s1 ?m1 "length s2" "length s2" s2, OF row0 col0] by simp
  then show ?thesis
    by (simp add: levenshteinDistance_def Let_def cell_def)
qed

section \<open>Symmetry and bound of the edit distance\<close>

lemma ed_sym: "ed s1 s2 i j = ed s2 s1 j i"
proof (induction s1 s2 i j rule: ed.induct)
  case (1 s1 s2 j)
  show ?case by simp
next
  case (2 s1 s2 i)
  show ?case by simp
next
  case (3 s1 s2 i j)
  show ?case
  proof (cases "s2 ! i = s1 ! j")
    case True
    then show ?thesis using 3 by simp
  next
    case False
    then have "s1 ! j \<noteq> s2 ! i" by auto
    then show ?thesis using False 3 by (simp add: min.commute min.left_commute)
  qed
qed

lemma ed_le_max: "ed s1 s2 i j \<le> max i j"
proof (induction s1 s2 i j rule: ed.induct)
  case (3 s1 s2 i j)
  show ?case
  proof (cases "s2 ! i = s1 ! j")
    case True
    then show ?thesis using 3 by simp
  next
    case False
    then have "ed s1 s2 i j \<le> max i j" using 3 by simp
    moreover have "ed s1 s2 (Suc i) (Suc j) \<le> ed s1 s2 i j + 1"
      using False by simp
    ultimately show ?thesis by simp
  qed
qed simp_all

lemma levenshteinDistance_sym:
  "length s = length t \<Longrightarrow> levenshteinDistance s t = levenshteinDistance t s"
  by (simp add: levenshteinDistance_ed ed_sym [of s t])

lemma levenshteinDistance_le: "levenshteinDistance s t \<le> max (length s) (length t)"
  using ed_le_max [of s t "length t" "length s"]
  by (simp add: levenshteinDistance_ed max.commute)

lemma edit_score_range:
  assumes nz: "x \<noteq> []" and le: "length y \<le> length x"
  shows "0 \<le> (of_nat (length x) - of_nat (levenshteinDistance x y)) / (of_nat (length x) :: rat)
       \<and> (of_nat (length x) - of_nat (levenshteinDistance x y)) / (of_nat (length x) :: rat) \<le> 1"
proof -
  have "levenshteinDistance x y \<le> length x"
    using levenshteinDistance_le [of x y] le by (simp add: max_def)
  then have "(of_nat (levenshteinDistance x y) :: rat) \<le> of_nat (length x)"
    by simp
  moreover have "(0::rat) < of_nat (length x)"
    using nz by simp
  ultimately show ?thesis
    by (simp add: divide_le_eq)
qed

text \<open>
  Claim C3. For every pair of strings, \<open>fuzzyMatch\<close> lies in the closed interval from
  0 to 1: the score of the edit-distance branch is never negative, because the value
  that \<open>levenshteinDistance\<close> returns for two strings never exceeds the length of the
  longer one.
\<close>

theorem fuzzyMatch_range:
  "0 \<le> fuzzyMatch a b \<and> fuzzyMatch a b \<le> 1
   \<and> levenshteinDistance s t \<le> max (length s) (length t)"
proof -
  have "0 \<le> fuzzyMatch a b \<and> fuzzyMatch a b \<le> 1"
    unfolding fuzzyMatch_def Let_def
    using edit_score_range by (auto simp: not_less)
  then show ?thesis
    using levenshteinDistance_le by simp
qed

theorem fuzzyMatch_range_witness:
  "0 \<le> fuzzyMatch ''Canal+ Sport'' ''M6 Music'' \<and> fuzzyMatch ''Canal+ Sport'' ''M6 Music'' \<le> 1
   \<and> levenshteinDistance ''canalsport'' ''m6music'' \<le> max (length ''canalsport'') (length ''m6music'')"
  by (rule fuzzyMatch_range)

text \<open>
  Claim C9. \<open>fuzzyMatch\<close> is symmetric, also in the edit-distance branch: the longer
  of the two normalized names is the same in both orders, and for names of equal
  length the edit distance does not depend on the order of its arguments.
\<close>

theorem fuzzyMatch_symmetric: "fuzzyMatch a b = fuzzyMatch b a"
proof -
  let ?s1 = "strip_non_alnum (toLowerCase a)"
  let ?s2 = "strip_non_alnum (toLowerCase b)"
  consider "length ?s1 > length ?s2" | "length ?s1 < length ?s2" | "length ?s1 = length ?s2"
    by linarith
  then show ?thesis
  proof cases
    case 1
    then show ?thesis by (auto simp: fuzzyMatch_def Let_def)
  next
    case 2
    then show ?thesis by (auto simp: fuzzyMatch_def Let_def)
  next
    case 3
    then show ?thesis
      using levenshteinDistance_sym [of ?s1 ?s2]
      by (auto simp: fuzzyMatch_def Let_def)
  qed
qed

theorem fuzzyMatch_symmetric_witness:
  "fuzzyMatch ''Arte HD'' ''ArteFR'' = fuzzyMatch ''ArteFR'' ''Arte HD''
   \<and> fuzzyMatch ''Arte HD'' ''ArteFR'' = 2 / 3"
proof -
  have "fuzzyMatch ''Arte HD'' ''ArteFR'' = 2 / 3"
    by code_simp
  then show ?thesis
    using fuzzyMatch_symmetric [of "''Arte HD''" "''ArteFR''"] by simp
qed

section \<open>The best candidate\<close>

lemma best_candidate_snoc:
  "best_candidate p (es @ [e]) = consider_candidate p e (best_candidate p es)"
  by (simp add: best_candidate_def)

text \<open>What the inner loop has found after the candidates \<open>es\<close>.\<close>

lemma best_candidate_inv:
  "(case best_candidate p es of
      (None, s) \<Rightarrow> s = 0 \<and> (\<forall>k < length es. fuzzyMatch (name p) (displayName (es ! k)) \<le> 6 / 10)
    | (Some b, s) \<Rightarrow> 6 / 10 < s \<and>
        (\<exists>k < length es. b = es ! k \<and> fuzzyMatch (name p) (displayName (es ! k)) = s
           \<and> (\<forall>k' < k. fuzzyMatch (name p) (displayName (es ! k')) < s)
           \<and> (\<forall>k' < length es. fuzzyMatch (name p) (displayName (es ! k')) \<le> s)))"
proof (induction es rule: rev_induct)
  case Nil
  show ?case by (simp add: best_candidate_def)
next
  case (snoc e es)
  let ?f = "\<lambda>x. fuzzyMatch (name p) (displayName x)"
  obtain bm s where best: "best_candidate p es = (bm, s)"
    by (cases "best_candidate p es") auto
  have nth_old: "\<And>k. k < length es \<Longrightarrow> (es @ [e]) ! k = es ! k"
    by (simp add: nth_append)
  have nth_new: "(es @ [e]) ! length es = e"
    by simp
  show ?case
  proof (cases bm)
    case None
    then have s0: "s = 0" and low: "\<forall>k < length es. ?f (es ! k) \<le> 6 / 10"
      using snoc.IH best by simp_all
    show ?thesis
    proof (cases "6 / 10 < ?f e")
      case True
      then have new: "best_candidate p (es @ [e]) = (Some e, ?f e)"
        using best None s0 by (simp add: best_candidate_snoc consider_candidate_def)
      have "\<forall>k' < length es. ?f ((es @ [e]) ! k') < ?f e"
        using low True nth_old by fastforce
      moreover have "\<forall>k' < length (es @ [e]). ?f ((es @ [e]) ! k') \<le> ?f e"
        using low True nth_old nth_new by (fastforce simp: less_Suc_eq)
      ultimately have "\<exists>k < length (es @ [e]). e = (es @ [e]) ! k \<and> ?f ((es @ [e]) ! k) = ?f e
           \<and> (\<forall>k' < k. ?f ((es @ [e]) ! k') < ?f e)
           \<and> (\<forall>k' < length (es @ [e]). ?f ((es @ [e]) ! k') \<le> ?f e)"
        by (intro exI [of _ "length es"]) simp
      then show ?thesis using new True by simp
    next
      case False
      then have new: "best_candidate p (es @ [e]) = (None, 0)"
        using best None s0 by (simp add: best_candidate_snoc consider_candidate_def)
      have "\<forall>k < length (es @ [e]). ?f ((es @ [e]) ! k) \<le> 6 / 10"
        using low False nth_old nth_new by (fastforce simp: less_Suc_eq)
      then show ?thesis using new by simp
    qed
  next
    case (Some b)
    then have big: "6 / 10 < s"
      and ex: "\<exists>k < length es. b = es ! k \<and> ?f (es ! k) = s
           \<and> (\<forall>k' < k. ?f (es ! k') < s) \<and> (\<forall>k' < length es. ?f (es ! k') \<le> s)"
      using snoc.IH best by simp_all
    then obtain k where k: "k < length es" "b = es ! k" "?f (es ! k) = s"
      "\<forall>k' < k. ?f (es ! k') < s" "\<forall>k' < length es. ?f (es ! k') \<le> s"
      by blast
    show ?thesis
    proof (cases "s < ?f e")
      case True
      then have new: "best_candidate p (es @ [e]) = (Some e, ?f e)"
        using best Some big by (simp add: best_candidate_snoc consider_candidate_def)
      have "\<forall>k' < length es. ?f ((es @ [e]) ! k') < ?f e"
        using k(5) True nth_old by fastforce
      moreover have "\<forall>k' < length (es @ [e]). ?f ((es @ [e]) ! k') \<le> ?f e"
        using k(5) True nth_old nth_new by (fastforce simp: less_Suc_eq)
      ultimately have "\<exists>k < length (es @ [e]). e = (es @ [e]) ! k \<and> ?f ((es @ [e]) ! k) = ?f e
           \<and> (\<forall>k' < k. ?f ((es @ [e]) ! k') < ?f e)
           \<and> (\<forall>k' < length (es @ [e]). ?f ((es @ [e]) ! k') \<le> ?f e)"
        by (intro exI [of _ "length es"]) simp
      then show ?thesis using new True big by simp
    next
      case False
      then have new: "best_candidate p (es @ [e]) = (Some b, s)"
        using best Some by (simp add: best_candidate_snoc consider_candidate_def)
      have "\<forall>k' < k. ?f ((es @ [e]) ! k') < s"
        using k(1) k(4) nth_old by simp
      moreover have "\<forall>k' < length (es @ [e]). ?f ((es @ [e]) ! k') \<le> s"
        using k(5) False nth_old nth_new by (fastforce simp: less_Suc_eq)
      moreover have "b = (es @ [e]) ! k" "?f ((es @ [e]) ! k) = s"
        using k(1) k(2) k(3) nth_old by simp_all
      ultimately have "\<exists>k < length (es @ [e]). b = (es @ [e]) ! k \<and> ?f ((es @ [e]) ! k) = s
           \<and> (\<forall>k' < k. ?f ((es @ [e]) ! k') < s)
           \<and> (\<forall>k' < length (es @ [e]). ?f ((es @ [e]) ! k') \<le> s)"
        using k(1) by (intro exI [of _ k]) simp
      then show ?thesis using new big by simp
    qed
  qed
qed

lemma best_candidate_Some:
  assumes "best_candidate p es = (Some b, s)"
  shows "6 / 10 < s \<and>
        (\<exists>k < length es. b = es ! k \<and> fuzzyMatch (name p) (displayName (es ! k)) = s
           \<and> (\<forall>k' < k. fuzzyMatch (name p) (displayName (es ! k')) < s)
           \<and> (\<forall>k' < length es. fuzzyMatch (name p) (displayName (es ! k')) \<le> s))"
  using best_candidate_inv [where p = p and es = es] assms by simp

lemma best_candidate_None:
  assumes "best_candidate p es = (None, s)"
  shows "\<forall>e \<in> set es. fuzzyMatch (name p) (displayName e) \<le> 6 / 10"
proof
  fix e assume "e \<in> set es"
  then obtain k where "k < length es" "e = es ! k"
    by (auto simp: in_set_conv_nth)
  then show "fuzzyMatch (name p) (displayName e) \<le> 6 / 10"
    using best_candidate_inv [where p = p and es = es] assms by simp
qed

lemma not_matched_iff:
  "\<not> is_matched es p \<longleftrightarrow> (\<forall>e \<in> set es. fuzzyMatch (name p) (displayName e) \<le> 6 / 10)"
proof
  assume "\<not> is_matched es p"
  then obtain s where "best_candidate p es = (None, s)"
    by (cases "best_candidate p es") (auto simp: is_matched_def)
  then show "\<forall>e \<in> set es. fuzzyMatch (name p) (displayName e) \<le> 6 / 10"
    by (rule best_candidate_None)
next
  assume low: "\<forall>e \<in> set es. fuzzyMatch (name p) (displayName e) \<le> 6 / 10"
  show "\<not> is_matched es p"
  proof
    assume "is_matched es p"
    then obtain b s where bs: "best_candidate p es = (Some b, s)"
      by (cases "best_candidate p es") (auto simp: is_matched_def)
    from best_candidate_Some [OF bs] obtain k where
      "6 / 10 < s" "k < length es" "fuzzyMatch (name p) (displayName (es ! k)) = s"
      by blast
    then show False using low by (metis nth_mem not_less)
  qed
qed

section \<open>The two outputs of the matcher\<close>

lemma match_channel_cases:
  "match_channel es p out =
     (if is_matched es p then out\<lparr>matches := matches out @ [result_for es p]\<rparr>
      else out\<lparr>unmatched := unmatched out @ [p]\<rparr>)"
  by (cases "best_candidate p es")
     (auto simp: match_channel_def is_matched_def result_for_def split: option.splits)

lemma fold_match_channel:
  "fold (match_channel es) ps out =
     out\<lparr>matches := matches out @ map (result_for es) (filter (is_matched es) ps),
         unmatched := unmatched out @ filter (\<lambda>p. \<not> is_matched es p) ps\<rparr>"
proof (induction ps arbitrary: out)
  case Nil
  show ?case by simp
next
  case (Cons p ps)
  have "fold (match_channel es) (p # ps) out = fold (match_channel es) ps (match_channel es p out)"
    by simp
  also have "\<dots> = (match_channel es p out)
      \<lparr>matches := matches (match_channel es p out) @ map (result_for es) (filter (is_matched es) ps),
       unmatched := unmatched (match_channel es p out) @ filter (\<lambda>p. \<not> is_matched es p) ps\<rparr>"
    by (rule Cons.IH)
  also have "\<dots> = out
      \<lparr>matches := matches out @ map (result_for es) (filter (is_matched es) (p # ps)),
       unmatched := unmatched out @ filter (\<lambda>p. \<not> is_matched es p) (p # ps)\<rparr>"
    by (simp add: match_channel_cases)
  finally show ?case .
qed

lemma matches_matchChannels:
  "matches (matchChannels ps es) = map (result_for es) (filter (is_matched es) ps)"
  by (simp add: matchChannels_def fold_match_channel)

lemma unmatched_matchChannels:
  "unmatched (matchChannels ps es) = filter (\<lambda>p. \<not> is_matched es p) ps"
  by (simp add: matchChannels_def fold_match_channel)

lemma source_channel_result_for [simp]: "source_channel (result_for es p) = p"
  by (simp add: source_channel_def result_for_def)

text \<open>
  Claim C1. Every match result of \<open>matchChannels\<close> comes from a playlist channel and
  an EPG channel at some position \<open>k\<close>; its score is strictly greater than 0.6, is
  the score of that EPG channel, and is the maximum of \<open>fuzzyMatch\<close> over all EPG
  channels; every EPG channel before position \<open>k\<close> scores strictly less, so the
  first candidate with the maximal score is the one selected. A playlist
  channel for which no EPG candidate scores strictly above 0.6 is in \<open>unmatched\<close>.
\<close>

theorem matchChannels_best_score:
  "(\<forall>r \<in> set (matches (matchChannels ps es)).
      \<exists>p \<in> set ps. \<exists>k < length es.
        source_channel r = p
        \<and> epgId r = epg_id (es ! k) \<and> epgName r = displayName (es ! k)
        \<and> 6 / 10 < score r
        \<and> score r = fuzzyMatch (name p) (displayName (es ! k))
        \<and> score r = Max ((\<lambda>e. fuzzyMatch (name p) (displayName e)) ` set es)
        \<and> (\<forall>k' < k. fuzzyMatch (name p) (displayName (es ! k')) < score r))
   \<and> (\<forall>p \<in> set ps.
        (\<forall>e \<in> set es. \<not> 6 / 10 < fuzzyMatch (name p) (displayName e))
        \<longrightarrow> p \<in> set (unmatched (matchChannels ps es)))"
proof (intro conjI ballI impI)
  fix r assume "r \<in> set (matches (matchChannels ps es))"
  then obtain p where p: "p \<in> set ps" "is_matched es p" "r = result_for es p"
    by (auto simp: matches_matchChannels)
  obtain b s where bs: "best_candidate p es = (Some b, s)"
    using p(2) by (cases "best_candidate p es") (auto simp: is_matched_def)
  from best_candidate_Some [OF bs] obtain k where k: "6 / 10 < s" "k < length es" "b = es ! k"
    "fuzzyMatch (name p) (displayName (es ! k)) = s"
    "\<forall>k' < k. fuzzyMatch (name p) (displayName (es ! k')) < s"
    "\<forall>k' < length es. fuzzyMatch (name p) (displayName (es ! k')) \<le> s"
    by blast
  have r: "epgId r = epg_id (es ! k)" "epgName r = displayName (es ! k)" "score r = s"
    using p(3) bs k(3) by (simp_all add: result_for_def)
  have "Max ((\<lambda>e. fuzzyMatch (name p) (displayName e)) ` set es) = s"
  proof (rule Max_eqI)
    show "finite ((\<lambda>e. fuzzyMatch (name p) (displayName e)) ` set es)" by simp
  next
    fix y assume "y \<in> (\<lambda>e. fuzzyMatch (name p) (displayName e)) ` set es"
    then show "y \<le> s" using k(6) by (auto simp: in_set_conv_nth)
  next
    show "s \<in> (\<lambda>e. fuzzyMatch (name p) (displayName e)) ` set es"
      using k(2) k(4) by (metis image_eqI nth_mem)
  qed
  then have "source_channel r = p
        \<and> epgId r = epg_id (es ! k) \<and> epgName r = displayName (es ! k)
        \<and> 6 / 10 < score r
        \<and> score r = fuzzyMatch (name p) (displayName (es ! k))
        \<and> score r = Max ((\<lambda>e. fuzzyMatch (name p) (displayName e)) ` set es)
        \<and> (\<forall>k' < k. fuzzyMatch (name p) (displayName (es ! k')) < score r)"
    using r k p(3) by simp
  then show "\<exists>p \<in> set ps. \<exists>k < length es.
        source_channel r = p
        \<and> epgId r = epg_id (es ! k) \<and> epgName r = displayName (es ! k)
        \<and> 6 / 10 < score r
        \<and> score r = fuzzyMatch (name p) (displayName (es ! k))
        \<and> score r = Max ((\<lambda>e. fuzzyMatch (name p) (displayName e)) ` set es)
        \<and> (\<forall>k' < k. fuzzyMatch (name p) (displayName (es ! k')) < score r)"
    using p(1) k(2) by blast
next
  fix p assume "p \<in> set ps"
    and "\<forall>e \<in> set es. \<not> 6 / 10 < fuzzyMatch (name p) (displayName e)"
  then have "\<not> is_matched es p"
    by (simp add: not_matched_iff not_less)
  then show "p \<in> set (unmatched (matchChannels ps es))"
    using \<open>p \<in> set ps\<close> by (simp add: unmatched_matchChannels)
qed

theorem matchChannels_best_score_witness:
  "tf1_result \<in> set (matches (matchChannels [tf1_channel, unknown_channel]
                                  [tf1_hd_epg, tf1_epg, tf1_lower_epg]))
   \<and> epgId tf1_result = epg_id tf1_epg
   \<and> 6 / 10 < score tf1_result
   \<and> score tf1_result
       = Max ((\<lambda>e. fuzzyMatch (name tf1_channel) (displayName e))
                ` set [tf1_hd_epg, tf1_epg, tf1_lower_epg])
   \<and> fuzzyMatch (name tf1_channel) (displayName tf1_hd_epg) < score tf1_result
   \<and> unknown_channel \<in> set (unmatched (matchChannels [tf1_channel, unknown_channel]
                                         [tf1_hd_epg, tf1_epg, tf1_lower_epg]))"
proof -
  let ?ps = "[tf1_channel, unknown_channel]"
  let ?es = "[tf1_hd_epg, tf1_epg, tf1_lower_epg]"
  have m: "tf1_result \<in> set (matches (matchChannels ?ps ?es))"
    by code_simp
  have low: "\<forall>e \<in> set ?es. \<not> 6 / 10 < fuzzyMatch (name unknown_channel) (displayName e)"
    by code_simp
  have mem: "unknown_channel \<in> set ?ps"
    by simp
  have src: "source_channel tf1_result = tf1_channel"
    by code_simp
  have ids: "epgId tf1_result \<noteq> epg_id tf1_hd_epg" "epgId tf1_result \<noteq> epg_id tf1_lower_epg"
    "epgId tf1_result = epg_id tf1_epg"
    by code_simp+
  have a: "\<exists>p \<in> set ?ps. \<exists>k < length ?es.
        source_channel tf1_result = p
        \<and> epgId tf1_result = epg_id (?es ! k) \<and> epgName tf1_result = displayName (?es ! k)
        \<and> 6 / 10 < score tf1_result
        \<and> score tf1_result = fuzzyMatch (name p) (displayName (?es ! k))
        \<and> score tf1_result = Max ((\<lambda>e. fuzzyMatch (name p) (displayName e)) ` set ?es)
        \<and> (\<forall>k' < k. fuzzyMatch (name p) (displayName (?es ! k')) < score tf1_result)"
    by (rule bspec [OF conjunct1 [OF matchChannels_best_score [of ?ps ?es]] m])
  have b: "unknown_channel \<in> set (unmatched (matchChannels ?ps ?es))"
    using matchChannels_best_score [of ?ps ?es] low mem by blast
  from a obtain p k where pk: "k < length ?es" "source_channel tf1_result = p"
    "epgId tf1_result = epg_id (?es ! k)" "6 / 10 < score tf1_result"
    "score tf1_result = Max ((\<lambda>e. fuzzyMatch (name p) (displayName e)) ` set ?es)"
    "\<forall>k' < k. fuzzyMatch (name p) (displayName (?es ! k')) < score tf1_result"
    by blast
  have p: "p = tf1_channel"
    using pk(2) src by simp
  have "k = 0 \<or> k = 1 \<or> k = 2"
    using pk(1) by auto
  then have k: "k = 1"
    using pk(3) ids(1) ids(2) by auto
  have first: "fuzzyMatch (name tf1_channel) (displayName tf1_hd_epg) < score tf1_result"
    using pk(6) p k by simp
  show ?thesis
    using m ids(3) pk(4) pk(5) p first b by simp
qed

section \<open>The score of Arte HD against ArteFR\<close>

text \<open>
  Claim C2, as stated, fails: the score of \<open>Arte HD\<close> against \<open>ArteFR\<close> is 2/3,
  and the threshold check of the matcher accepts it; the channel is matched, not
  left unmatched.
\<close>

theorem arte_score_rejected_counterexample:
  "fuzzyMatch ''Arte HD'' ''ArteFR'' = 2 / 3
   \<and> consider_candidate arte_hd_channel artefr_epg (None, 0) = (Some artefr_epg, 2 / 3)
   \<and> unmatched (matchChannels [arte_hd_channel] [artefr_epg]) = []
   \<and> map score (matches (matchChannels [arte_hd_channel] [artefr_epg])) = [2 / 3]"
  by code_simp

text \<open>
  Claim C2, amended. The normalized forms of \<open>Arte HD\<close> and \<open>ArteFR\<close> are
  \<open>artehd\<close> and \<open>artefr\<close>, their edit distance is 2 and the score is
  (6 - 2) / 6 = 2/3. The threshold check of the matcher accepts this score, which
  is strictly greater than 0.6: a candidate with this score becomes the best
  match whenever the best score so far is below 2/3.
\<close>

theorem arte_score_accepted:
  "strip_non_alnum (toLowerCase ''Arte HD'') = ''artehd''
   \<and> strip_non_alnum (toLowerCase ''ArteFR'') = ''artefr''
   \<and> levenshteinDistance ''artefr'' ''artehd'' = 2
   \<and> fuzzyMatch ''Arte HD'' ''ArteFR'' = (6 - 2) / 6
   \<and> (name p = ''Arte HD'' \<and> displayName e = ''ArteFR'' \<and> snd best < 2 / 3
        \<longrightarrow> consider_candidate p e best = (Some e, 2 / 3))"
proof -
  have norm: "strip_non_alnum (toLowerCase ''Arte HD'') = ''artehd''"
    "strip_non_alnum (toLowerCase ''ArteFR'') = ''artefr''"
    by code_simp+
  have dist: "levenshteinDistance ''artefr'' ''artehd'' = 2"
    by code_simp
  have sc: "fuzzyMatch ''Arte HD'' ''ArteFR'' = 2 / 3"
    by code_simp
  have "name p = ''Arte HD'' \<and> displayName e = ''ArteFR'' \<and> snd best < 2 / 3
        \<longrightarrow> consider_candidate p e best = (Some e, 2 / 3)"
    using sc by (simp add: consider_candidate_def)
  then show ?thesis
    using norm dist sc by simp
qed

theorem arte_score_accepted_witness:
  "name arte_hd_channel = ''Arte HD'' \<and> displayName artefr_epg = ''ArteFR''
   \<and> snd (None :: epg_channel option, 0 :: rat) < 2 / 3
   \<and> consider_candidate arte_hd_channel artefr_epg (None, 0) = (Some artefr_epg, 2 / 3)"
proof -
  have h: "name arte_hd_channel = ''Arte HD'' \<and> displayName artefr_epg = ''ArteFR''
           \<and> snd (None :: epg_channel option, 0 :: rat) < 2 / 3"
    by (simp add: arte_hd_channel_def artefr_epg_def)
  then show ?thesis
    using arte_score_accepted [of arte_hd_channel artefr_epg "(None, 0)"] by blast
qed

section \<open>Every channel in one group, and the corrected playlist\<close>

lemma fold_append_two:
  "fold (\<lambda>x acc. (acc @ f x) @ g x) xs acc = acc @ concat (map (\<lambda>x. f x @ g x) xs)"
  by (induction xs arbitrary: acc) simp_all

lemma unlines_append: "unlines (xs @ ys) = unlines xs @ unlines ys"
  by (simp add: unlines_def)

lemma unlines_concat_map:
  "unlines (concat (map f xs)) = concat (map (\<lambda>x. unlines (f x)) xs)"
  by (induction xs) (simp_all add: unlines_append, simp add: unlines_def)

lemma generateCorrectedM3U_unlines:
  "generateCorrectedM3U ms us =
     unlines (m3u_header # concat (map match_lines ms) @ concat (map unmatched_lines us))"
proof -
  have "generateCorrectedM3U ms us =
        (m3u_header @ [newline])
          @ concat (map (\<lambda>r. unlines (match_lines r)) ms)
          @ concat (map (\<lambda>c. unlines (unmatched_lines c)) us)"
    unfolding generateCorrectedM3U_def Let_def fold_append_two
    by (simp add: unlines_def match_lines_def unmatched_lines_def)
  also have "\<dots> = unlines [m3u_header] @ unlines (concat (map match_lines ms))
                    @ unlines (concat (map unmatched_lines us))"
    by (simp add: unlines_concat_map) (simp add: unlines_def)
  also have "\<dots> = unlines (m3u_header # concat (map match_lines ms)
                              @ concat (map unmatched_lines us))"
    by (simp add: unlines_def)
  finally show ?thesis .
qed

lemma split_newline_line:
  "newline \<notin> set l \<Longrightarrow> split_newline (l @ newline # rest) = l # split_newline rest"
  by (induction l) (auto split: list.splits)

lemma split_newline_unlines:
  "\<forall>l \<in> set ls. newline \<notin> set l \<Longrightarrow> split_newline (unlines ls) = ls @ [[]]"
proof (induction ls)
  case Nil
  show ?case by (simp add: unlines_def)
next
  case (Cons l ls)
  have "unlines (l # ls) = l @ newline # unlines ls"
    by (simp add: unlines_def)
  then show ?case
    using Cons by (simp add: split_newline_line)
qed

lemma m3u_header_no_newline: "newline \<notin> set m3u_header"
  by (simp add: m3u_header_def newline_def dquote_def)

lemma extinf_with_id_no_newline:
  "newline \<notin> set i \<Longrightarrow> newline \<notin> set l \<Longrightarrow> newline \<notin> set (extinf_with_id i l)"
  by (simp add: extinf_with_id_def newline_def dquote_def)

lemma extinf_without_id_no_newline:
  "newline \<notin> set l \<Longrightarrow> newline \<notin> set (extinf_without_id l)"
  by (simp add: extinf_without_id_def newline_def)

lemma partition_and_lines:
  "map source_channel (matches (matchChannels ps es)) = filter (is_matched es) ps
   \<and> unmatched (matchChannels ps es) = filter (\<lambda>p. \<not> is_matched es p) ps
   \<and> set (map source_channel (matches (matchChannels ps es)))
        \<inter> set (unmatched (matchChannels ps es)) = {}
   \<and> mset (map source_channel (matches (matchChannels ps es)))
        + mset (unmatched (matchChannels ps es)) = mset ps
   \<and> length (matches (matchChannels ps es)) + length (unmatched (matchChannels ps es))
        = length ps
   \<and> generateCorrectedM3U ms us =
        unlines (m3u_header # concat (map match_lines ms) @ concat (map unmatched_lines us))
   \<and> ((\<forall>r \<in> set ms. newline \<notin> set (epgId r) \<and> newline \<notin> set (playlistName r)
                       \<and> newline \<notin> set (match_streamUrl r))
        \<and> (\<forall>c \<in> set us. newline \<notin> set (name c) \<and> newline \<notin> set (streamUrl c))
      \<longrightarrow> split_newline (generateCorrectedM3U ms us) =
            m3u_header # concat (map match_lines ms) @ concat (map unmatched_lines us) @ [[]])"
proof -
  have m: "map source_channel (matches (matchChannels ps es)) = filter (is_matched es) ps"
    by (simp add: matches_matchChannels comp_def)
  have u: "unmatched (matchChannels ps es) = filter (\<lambda>p. \<not> is_matched es p) ps"
    by (rule unmatched_matchChannels)
  have disj: "set (map source_channel (matches (matchChannels ps es)))
        \<inter> set (unmatched (matchChannels ps es)) = {}"
    unfolding m u by auto
  have ms: "mset (map source_channel (matches (matchChannels ps es)))
        + mset (unmatched (matchChannels ps es)) = mset ps"
    unfolding m u by simp
  have len: "length (matches (matchChannels ps es)) + length (unmatched (matchChannels ps es))
        = length ps"
    using arg_cong [OF ms, of size] by simp
  have lines: "(\<forall>r \<in> set ms. newline \<notin> set (epgId r) \<and> newline \<notin> set (playlistName r)
                       \<and> newline \<notin> set (match_streamUrl r))
        \<and> (\<forall>c \<in> set us. newline \<notin> set (name c) \<and> newline \<notin> set (streamUrl c))
      \<longrightarrow> split_newline (generateCorrectedM3U ms us) =
            m3u_header # concat (map match_lines ms) @ concat (map unmatched_lines us) @ [[]]"
  proof
    assume h: "(\<forall>r \<in> set ms. newline \<notin> set (epgId r) \<and> newline \<notin> set (playlistName r)
                       \<and> newline \<notin> set (match_streamUrl r))
        \<and> (\<forall>c \<in> set us. newline \<notin> set (name c) \<and> newline \<notin> set (streamUrl c))"
    have "\<forall>l \<in> set (m3u_header # concat (map match_lines ms) @ concat (map unmatched_lines us)).
            newline \<notin> set l"
      using h m3u_header_no_newline
      by (auto simp: match_lines_def unmatched_lines_def
          dest: extinf_with_id_no_newline extinf_without_id_no_newline)
    then show "split_newline (generateCorrectedM3U ms us) =
            m3u_header # concat (map match_lines ms) @ concat (map unmatched_lines us) @ [[]]"
      unfolding generateCorrectedM3U_unlines
      by (simp only: split_newline_unlines) simp
  qed
  show ?thesis
    using m u disj ms len lines generateCorrectedM3U_unlines by blast
qed

section \<open>The substring rule\<close>

lemma startsWith_iff: "startsWith s p \<longleftrightarrow> (\<exists>r. s = p @ r)"
  by (induction s p rule: startsWith.induct) auto

lemma includes_str_iff: "includes_str s t \<longleftrightarrow> (\<exists>p q. s = p @ t @ q)"
proof (induction s)
  case Nil
  show ?case by auto
next
  case (Cons c cs)
  show ?case
  proof
    assume "includes_str (c # cs) t"
    then consider "startsWith (c # cs) t" | "includes_str cs t" by auto
    then show "\<exists>p q. c # cs = p @ t @ q"
    proof cases
      case 1
      then obtain r where "c # cs = t @ r" by (auto simp: startsWith_iff)
      then have "c # cs = [] @ t @ r" by simp
      then show ?thesis by blast
    next
      case 2
      then obtain p q where "cs = p @ t @ q" using Cons by blast
      then have "c # cs = (c # p) @ t @ q" by simp
      then show ?thesis by blast
    qed
  next
    assume "\<exists>p q. c # cs = p @ t @ q"
    then obtain p q where pq: "c # cs = p @ t @ q" by blast
    show "includes_str (c # cs) t"
    proof (cases p)
      case Nil
      then have "startsWith (c # cs) t" using pq by (auto simp: startsWith_iff)
      then show ?thesis by simp
    next
      case (Cons d p')
      then have "cs = p' @ t @ q" using pq by simp
      then have "includes_str cs t" using Cons.IH by blast
      then show ?thesis by simp
    qed
  qed
qed

lemma includes_str_empty [simp]: "includes_str s []"
  by (cases s) simp_all

lemma four_fifths_iff:
  assumes "0 < L"
  shows "(of_nat L - of_nat d) / (of_nat L :: rat) = 4 / 5 \<longleftrightarrow> 5 * d = L"
proof -
  have nz: "(of_nat L :: rat) \<noteq> 0" using assms by simp
  have "(of_nat L - of_nat d) / (of_nat L :: rat) = 4 / 5
        \<longleftrightarrow> 5 * (of_nat L - of_nat d) = 4 * (of_nat L :: rat)"
    using nz by (simp add: field_simps)
  also have "\<dots> \<longleftrightarrow> (of_nat L :: rat) = of_nat (5 * d)"
    by (auto simp: algebra_simps)
  also have "\<dots> \<longleftrightarrow> L = 5 * d"
    by (simp only: of_nat_eq_iff)
  finally show ?thesis by auto
qed

text \<open>
  Claim C4, as stated, fails in both directions. When exactly one normalized form is
  empty the substring rule does apply, since \<open>includes\<close> of the empty string is
  true, and the result is 0.8, not 0. And the edit-distance branch returns 0.8 too
  when one character in five differs, without any containment.
\<close>

theorem substring_rule_counterexample:
  "strip_non_alnum (toLowerCase ''TF1'') = ''tf1''
   \<and> strip_non_alnum (toLowerCase ''***'') = []
   \<and> fuzzyMatch ''TF1'' ''***'' = 4 / 5
   \<and> \<not> includes_str ''abcde'' ''abxde''
   \<and> \<not> includes_str ''abxde'' ''abcde''
   \<and> fuzzyMatch ''abcde'' ''abxde'' = 4 / 5"
  by code_simp

text \<open>
  Claim C4, amended. For all strings whose normalized forms \<open>s1\<close>, \<open>s2\<close> are
  unequal: when one normalized form is a substring of the other, the empty string
  being a substring of every string, \<open>fuzzyMatch\<close> returns 0.8; so it returns 0.8
  when exactly one normalized form is empty. Otherwise it returns the score of the
  edit-distance branch. Hence the result is 0.8 if and only if one normalized form
  is a substring of the other or the edit distance is a fifth of the length of the
  longer form.
\<close>

theorem substring_rule:
  "strip_non_alnum (toLowerCase a) = s1 \<and> strip_non_alnum (toLowerCase b) = s2 \<and> s1 \<noteq> s2
   \<and> longer = (if length s1 > length s2 then s1 else s2)
   \<and> shorter = (if length s1 > length s2 then s2 else s1)
   \<longrightarrow>
     ((\<exists>p q. s1 = p @ s2 @ q) \<or> (\<exists>p q. s2 = p @ s1 @ q) \<longrightarrow> fuzzyMatch a b = 4 / 5)
   \<and> (s1 = [] \<or> s2 = [] \<longrightarrow> fuzzyMatch a b = 4 / 5)
   \<and> (\<not> ((\<exists>p q. s1 = p @ s2 @ q) \<or> (\<exists>p q. s2 = p @ s1 @ q)) \<longrightarrow>
        fuzzyMatch a b =
          (of_nat (length longer) - of_nat (levenshteinDistance longer shorter))
            / of_nat (length longer))
   \<and> (fuzzyMatch a b = 4 / 5 \<longleftrightarrow>
        ((\<exists>p q. s1 = p @ s2 @ q) \<or> (\<exists>p q. s2 = p @ s1 @ q))
        \<or> 5 * levenshteinDistance longer shorter = length longer)"
proof (intro impI, elim conjE)
  assume s1: "strip_non_alnum (toLowerCase a) = s1"
    and s2: "strip_non_alnum (toLowerCase b) = s2"
    and ne: "s1 \<noteq> s2"
    and longer: "longer = (if length s1 > length s2 then s1 else s2)"
    and shorter: "shorter = (if length s1 > length s2 then s2 else s1)"
  let ?sub = "(\<exists>p q. s1 = p @ s2 @ q) \<or> (\<exists>p q. s2 = p @ s1 @ q)"
  let ?edit = "(of_nat (length longer) - of_nat (levenshteinDistance longer shorter))
            / (of_nat (length longer) :: rat)"
  have sub_inc: "?sub \<longleftrightarrow> includes_str s1 s2 \<or> includes_str s2 s1"
    by (simp add: includes_str_iff)
  have pos: "0 < length longer"
    using ne longer by (cases "length s1 > length s2") auto
  have r1: "?sub \<Longrightarrow> fuzzyMatch a b = 4 / 5"
    using s1 s2 ne sub_inc by (simp add: fuzzyMatch_def Let_def)
  have r2: "\<not> ?sub \<Longrightarrow> fuzzyMatch a b = ?edit"
    using s1 s2 ne sub_inc pos longer shorter by (simp add: fuzzyMatch_def Let_def)
  have empty: "s1 = [] \<or> s2 = [] \<Longrightarrow> ?sub"
    unfolding sub_inc by auto
  have r3: "fuzzyMatch a b = 4 / 5 \<longleftrightarrow>
        ?sub \<or> 5 * levenshteinDistance longer shorter = length longer"
  proof (cases ?sub)
    case True
    then show ?thesis using r1 by simp
  next
    case False
    then show ?thesis using r2 four_fifths_iff [OF pos] by simp
  qed
  show "(?sub \<longrightarrow> fuzzyMatch a b = 4 / 5)
   \<and> (s1 = [] \<or> s2 = [] \<longrightarrow> fuzzyMatch a b = 4 / 5)
   \<and> (\<not> ?sub \<longrightarrow> fuzzyMatch a b = ?edit)
   \<and> (fuzzyMatch a b = 4 / 5 \<longleftrightarrow>
        ?sub \<or> 5 * levenshteinDistance longer shorter = length longer)"
    using r1 r2 r3 empty by blast
qed

theorem substring_rule_witness:
  "strip_non_alnum (toLowerCase ''France 2'') = ''france2''
   \<and> strip_non_alnum (toLowerCase ''France2.fr'') = ''france2fr''
   \<and> ''france2'' \<noteq> ''france2fr''
   \<and> ''france2fr'' = [] @ ''france2'' @ ''fr''
   \<and> fuzzyMatch ''France 2'' ''France2.fr'' = 4 / 5"
proof -
  have n: "strip_non_alnum (toLowerCase ''France 2'') = ''france2''"
    "strip_non_alnum (toLowerCase ''France2.fr'') = ''france2fr''"
    by code_simp+
  have ne: "''france2'' \<noteq> ''france2fr''"
    by simp
  have sub: "''france2fr'' = [] @ ''france2'' @ ''fr''"
    by simp
  then have ex: "(\<exists>p q. ''france2'' = p @ ''france2fr'' @ q)
                 \<or> (\<exists>p q. ''france2fr'' = p @ ''france2'' @ q)"
    by blast
  have "fuzzyMatch ''France 2'' ''France2.fr'' = 4 / 5"
    using substring_rule [of "''France 2''" "''france2''" "''France2.fr''" "''france2fr''"
                             "''france2fr''" "''france2''"] n ne ex
    by simp
  then show ?thesis
    using n ne sub by blast
qed

section \<open>The entries that the parser keeps\<close>

lemma parse_line_acc: "parse_line ls i acc = acc @ parse_line ls i []"
  by (simp add: parse_line_def Let_def)

lemma fold_parse_line:
  "fold (parse_line ls) is acc = acc @ concat (map (\<lambda>i. parse_line ls i []) is)"
proof (induction "is" arbitrary: acc)
  case Nil
  show ?case by simp
next
  case (Cons i "is")
  have "fold (parse_line ls) (i # is) acc = fold (parse_line ls) is (parse_line ls i acc)"
    by simp
  also have "\<dots> = parse_line ls i acc @ concat (map (\<lambda>i. parse_line ls i []) is)"
    by (rule Cons.IH)
  also have "\<dots> = acc @ concat (map (\<lambda>i. parse_line ls i []) (i # is))"
    using parse_line_acc [of ls i acc] by simp
  finally show ?case .
qed

lemma parseM3U_concat:
  "parseM3U content =
     concat (map (\<lambda>i. parse_line (split_newline content) i [])
               [0..<length (split_newline content)])"
  by (simp add: parseM3U_def Let_def fold_parse_line)

lemma find_after_None: "\<not> includes_str s pat \<Longrightarrow> find_after pat s = None"
  by (induction s) auto

lemma tvgIdMatch_None:
  "\<not> includes_str line (''tvg-id='' @ [dquote]) \<Longrightarrow> tvgIdMatch line = None"
  using find_after_None [of line "''tvg-id='' @ [dquote]"] by (simp add: tvgIdMatch_def)



text \<open>
  Claim C7. The channels of \<open>parseM3U\<close> are what the lines contribute, in order. A
  line contributes a channel if and only if, after trimming, it starts with
  \<open>#EXTINF:\<close>, its trailing display name is not empty and the following line exists
  and is not empty after trimming; it then contributes exactly one channel with that
  name and that line as stream URL, and otherwise nothing, so the entry is skipped
  and nothing fails. A directive without a \<open>tvg-id="\<close> attribute gets the empty
  string as \<open>tvgId\<close>.
\<close>

theorem parseM3U_entries:
  "ls = split_newline content \<and> i < length ls \<and> line = trim (ls ! i)
   \<and> kept = (startsWith line ''#EXTINF:'' \<and> name_of line \<noteq> []
             \<and> i + 1 < length ls \<and> trim (ls ! (i + 1)) \<noteq> [])
   \<longrightarrow>
     parseM3U content = concat (map (\<lambda>i. parse_line ls i []) [0..<length ls])
   \<and> (parse_line ls i [] \<noteq> [] \<longleftrightarrow> kept)
   \<and> (kept \<longrightarrow> parse_line ls i [] =
         [\<lparr>name = name_of line,
           tvgId = (case tvgIdMatch line of Some g \<Rightarrow> g | None \<Rightarrow> []),
           streamUrl = trim (ls ! (i + 1))\<rparr>])
   \<and> (\<not> kept \<longrightarrow> parse_line ls i [] = [])
   \<and> (kept \<and> \<not> includes_str line (''tvg-id='' @ [dquote])
        \<longrightarrow> map tvgId (parse_line ls i []) = [[]])"
proof (intro impI, elim conjE)
  assume ls: "ls = split_newline content" and i: "i < length ls"
    and line: "line = trim (ls ! i)"
    and kept: "kept = (startsWith line ''#EXTINF:'' \<and> name_of line \<noteq> []
             \<and> i + 1 < length ls \<and> trim (ls ! (i + 1)) \<noteq> [])"
  have all: "parseM3U content = concat (map (\<lambda>i. parse_line ls i []) [0..<length ls])"
    unfolding ls by (rule parseM3U_concat)
  have yes: "kept \<Longrightarrow> parse_line ls i [] =
         [\<lparr>name = name_of line,
           tvgId = (case tvgIdMatch line of Some g \<Rightarrow> g | None \<Rightarrow> []),
           streamUrl = trim (ls ! (i + 1))\<rparr>]"
    using kept line by (simp add: parse_line_def next_line_def Let_def)
  have no: "\<not> kept \<Longrightarrow> parse_line ls i [] = []"
    using kept line by (auto simp: parse_line_def next_line_def Let_def)
  have iff: "parse_line ls i [] \<noteq> [] \<longleftrightarrow> kept"
    using yes no by (cases kept) simp_all
  have noid: "kept \<and> \<not> includes_str line (''tvg-id='' @ [dquote])
        \<Longrightarrow> map tvgId (parse_line ls i []) = [[]]"
    using yes tvgIdMatch_None [of line] by simp
  show "parseM3U content = concat (map (\<lambda>i. parse_line ls i []) [0..<length ls])
   \<and> (parse_line ls i [] \<noteq> [] \<longleftrightarrow> kept)
   \<and> (kept \<longrightarrow> parse_line ls i [] =
         [\<lparr>name = name_of line,
           tvgId = (case tvgIdMatch line of Some g \<Rightarrow> g | None \<Rightarrow> []),
           streamUrl = trim (ls ! (i + 1))\<rparr>])
   \<and> (\<not> kept \<longrightarrow> parse_line ls i [] = [])
   \<and> (kept \<and> \<not> includes_str line (''tvg-id='' @ [dquote])
        \<longrightarrow> map tvgId (parse_line ls i []) = [[]])"
    using all yes no iff noid by blast
qed

lemma in_concat_map: "x \<in> set xs \<Longrightarrow> y \<in> set (f x) \<Longrightarrow> y \<in> set (concat (map f xs))"
  by auto

text \<open>
  Claim C10. Whenever a directive line with a non-empty trailing name is followed by
  any line that is not blank, \<open>parseM3U\<close> emits a channel with that name whose stream
  URL is the trimmed text of the following line, whatever that line is: also
  another \<open>#EXTINF\<close> directive, which then is the stream URL of the first entry.
\<close>

theorem parseM3U_next_line_is_url:
  "ls = split_newline content \<and> i + 1 < length ls
   \<and> startsWith (trim (ls ! i)) ''#EXTINF:'' \<and> name_of (trim (ls ! i)) \<noteq> []
   \<and> trim (ls ! (i + 1)) \<noteq> []
   \<longrightarrow> (\<exists>c \<in> set (parseM3U content).
          name c = name_of (trim (ls ! i)) \<and> streamUrl c = trim (ls ! (i + 1)))"
proof (intro impI, elim conjE)
  assume ls: "ls = split_newline content" and i: "i + 1 < length ls"
    and d: "startsWith (trim (ls ! i)) ''#EXTINF:''" and n: "name_of (trim (ls ! i)) \<noteq> []"
    and u: "trim (ls ! (i + 1)) \<noteq> []"
  let ?c = "\<lparr>name = name_of (trim (ls ! i)),
           tvgId = (case tvgIdMatch (trim (ls ! i)) of Some g \<Rightarrow> g | None \<Rightarrow> []),
           streamUrl = trim (ls ! (i + 1))\<rparr>"
  have "parse_line ls i [] = [?c]"
    using i d n u by (simp add: parse_line_def next_line_def Let_def)
  then have here: "?c \<in> set (parse_line ls i [])"
    by simp
  have idx: "i \<in> set [0..<length ls]"
    using i by simp
  have "?c \<in> set (concat (map (\<lambda>i. parse_line ls i []) [0..<length ls]))"
    by (rule in_concat_map [where f = "\<lambda>i. parse_line ls i []" and x = i, OF idx here])
  then have "?c \<in> set (parseM3U content)"
    unfolding ls by (simp only: parseM3U_concat)
  then show "\<exists>c \<in> set (parseM3U content).
          name c = name_of (trim (ls ! i)) \<and> streamUrl c = trim (ls ! (i + 1))"
    by (rule bexI [rotated]) simp
qed



theorem parseM3U_entries_witness:
  "parse_line (split_newline sample_playlist) 0 [] \<noteq> []
   \<and> map tvgId (parse_line (split_newline sample_playlist) 0 []) = [[]]
   \<and> parse_line (split_newline sample_playlist) 2 [] = []
   \<and> parse_line (split_newline sample_playlist) 4 [] = []
   \<and> parseM3U sample_playlist = [\<lparr>name = ''TF1'', tvgId = [], streamUrl = ''http://a''\<rparr>]"
proof -
  let ?ls = "split_newline sample_playlist"
  have len: "0 < length ?ls" "2 < length ?ls" "4 < length ?ls"
    by code_simp+
  have k0: "True = (startsWith (trim (?ls ! 0)) ''#EXTINF:'' \<and> name_of (trim (?ls ! 0)) \<noteq> []
             \<and> 0 + 1 < length ?ls \<and> trim (?ls ! (0 + 1)) \<noteq> [])"
    by code_simp
  have k2: "False = (startsWith (trim (?ls ! 2)) ''#EXTINF:'' \<and> name_of (trim (?ls ! 2)) \<noteq> []
             \<and> 2 + 1 < length ?ls \<and> trim (?ls ! (2 + 1)) \<noteq> [])"
    by code_simp
  have k4: "False = (startsWith (trim (?ls ! 4)) ''#EXTINF:'' \<and> name_of (trim (?ls ! 4)) \<noteq> []
             \<and> 4 + 1 < length ?ls \<and> trim (?ls ! (4 + 1)) \<noteq> [])"
    by code_simp
  have noid: "\<not> includes_str (trim (?ls ! 0)) (''tvg-id='' @ [dquote])"
    by code_simp
  have a: "parse_line ?ls 0 [] \<noteq> []" "map tvgId (parse_line ?ls 0 []) = [[]]"
    using parseM3U_entries [of ?ls sample_playlist 0 "trim (?ls ! 0)" True] len(1) k0 noid
    by blast+
  have b: "parse_line ?ls 2 [] = []"
    using parseM3U_entries [of ?ls sample_playlist 2 "trim (?ls ! 2)" False] len(2) k2
    by blast
  have c: "parse_line ?ls 4 [] = []"
    using parseM3U_entries [of ?ls sample_playlist 4 "trim (?ls ! 4)" False] len(3) k4
    by blast
  have d: "parseM3U sample_playlist = [\<lparr>name = ''TF1'', tvgId = [], streamUrl = ''http://a''\<rparr>]"
    by code_simp
  show ?thesis
    using a b c d by blast
qed

theorem parseM3U_next_line_is_url_witness:
  "startsWith (trim (split_newline directive_pair ! 1)) ''#EXTINF:''
   \<and> (\<exists>c \<in> set (parseM3U directive_pair). name c = ''A'' \<and> streamUrl c = ''#EXTINF:-1,B'')
   \<and> parseM3U directive_pair =
       [\<lparr>name = ''A'', tvgId = [], streamUrl = ''#EXTINF:-1,B''\<rparr>,
        \<lparr>name = ''B'', tvgId = [], streamUrl = ''http://b''\<rparr>]"
proof -
  let ?ls = "split_newline directive_pair"
  have h: "0 + 1 < length ?ls \<and> startsWith (trim (?ls ! 0)) ''#EXTINF:''
           \<and> name_of (trim (?ls ! 0)) \<noteq> [] \<and> trim (?ls ! (0 + 1)) \<noteq> []"
    by code_simp
  have v: "name_of (trim (?ls ! 0)) = ''A''" "trim (?ls ! (0 + 1)) = ''#EXTINF:-1,B''"
    by code_simp+
  have d: "startsWith (trim (?ls ! 1)) ''#EXTINF:''"
    by code_simp
  have "\<exists>c \<in> set (parseM3U directive_pair).
          name c = name_of (trim (?ls ! 0)) \<and> streamUrl c = trim (?ls ! (0 + 1))"
    using parseM3U_next_line_is_url [of ?ls directive_pair 0] h by blast
  then have e: "\<exists>c \<in> set (parseM3U directive_pair). name c = ''A'' \<and> streamUrl c = ''#EXTINF:-1,B''"
    unfolding v .
  have f: "parseM3U directive_pair =
       [\<lparr>name = ''A'', tvgId = [], streamUrl = ''#EXTINF:-1,B''\<rparr>,
        \<lparr>name = ''B'', tvgId = [], streamUrl = ''http://b''\<rparr>]"
    by code_simp
  show ?thesis
    using d e f by blast
qed



section \<open>The fields of a parsed channel hold no line feed\<close>

lemma split_newline_no_newline: "l \<in> set (split_newline s) \<Longrightarrow> newline \<notin> set l"
proof (induction s arbitrary: l)
  case Nil
  then show ?case by simp
next
  case (Cons c cs)
  show ?case
  proof (cases "c = newline")
    case True
    then show ?thesis using Cons by auto
  next
    case False
    show ?thesis
    proof (cases "split_newline cs")
      case Nil
      then show ?thesis using Cons.prems False by simp
    next
      case (Cons h t)
      then have "l = c # h \<or> l \<in> set t"
        using Cons.prems False by simp
      moreover have "newline \<notin> set h" "\<And>x. x \<in> set t \<Longrightarrow> newline \<notin> set x"
        using Cons.IH Cons by simp_all
      ultimately show ?thesis using False by auto
    qed
  qed
qed

lemma set_trim: "set (trim s) \<subseteq> set s"
proof
  fix x assume "x \<in> set (trim s)"
  then have "x \<in> set (dropWhile is_space (rev (dropWhile is_space s)))"
    by (simp add: trim_def)
  then have "x \<in> set (rev (dropWhile is_space s))"
    by (rule set_dropWhileD)
  then have "x \<in> set (dropWhile is_space s)"
    by simp
  then show "x \<in> set s"
    by (rule set_dropWhileD)
qed

lemma set_nameMatch: "nameMatch s = Some g \<Longrightarrow> set g \<subseteq> set s"
  by (induction s) (auto split: if_splits)

lemma set_name_of: "set (name_of s) \<subseteq> set s"
proof (cases "nameMatch s")
  case None
  then show ?thesis by (simp add: name_of_def)
next
  case (Some g)
  then show ?thesis
    using set_nameMatch [OF Some] set_trim [of g] by (auto simp: name_of_def)
qed

lemma parseM3U_fields_no_newline:
  assumes "c \<in> set (parseM3U content)"
  shows "newline \<notin> set (name c) \<and> newline \<notin> set (streamUrl c)"
proof -
  let ?ls = "split_newline content"
  from assms obtain i where i: "i < length ?ls" and c: "c \<in> set (parse_line ?ls i [])"
    unfolding parseM3U_concat by auto
  have nm: "name c = name_of (trim (?ls ! i))"
    and url: "streamUrl c = trim (?ls ! (i + 1))" and nxt: "i + 1 < length ?ls"
    using c by (auto simp: parse_line_def next_line_def Let_def split: if_splits)
  have "newline \<notin> set (?ls ! i)" "newline \<notin> set (?ls ! (i + 1))"
    using i nxt split_newline_no_newline [of _ content] nth_mem by blast+
  then show ?thesis
    using nm url set_name_of [of "trim (?ls ! i)"] set_trim [of "?ls ! i"]
      set_trim [of "?ls ! (i + 1)"]
    by auto
qed

section \<open>The text of the corrected playlist\<close>

lemma generateCorrectedM3U_text:
  "generateCorrectedM3U ms us =
     (''#EXTM3U url-tvg='' @ [CHR 0x22] @ ''fr_epg.xml'' @ [CHR 0x22] @ [CHR 0x0A])
     @ concat (map (\<lambda>r. ''#EXTINF:-1 tvg-id='' @ [CHR 0x22] @ epgId r @ [CHR 0x22] @ '',''
                          @ playlistName r @ [CHR 0x0A] @ match_streamUrl r @ [CHR 0x0A]) ms)
     @ concat (map (\<lambda>c. ''#EXTINF:-1,'' @ name c @ [CHR 0x0A] @ streamUrl c @ [CHR 0x0A]) us)"
  unfolding generateCorrectedM3U_def Let_def fold_append_two
  by (simp add: m3u_header_def extinf_with_id_def extinf_without_id_def newline_def dquote_def)

lemma generateCorrectedM3U_lines:
  assumes "\<forall>r \<in> set ms. CHR 0x0A \<notin> set (epgId r) \<and> CHR 0x0A \<notin> set (playlistName r)
                       \<and> CHR 0x0A \<notin> set (match_streamUrl r)"
    and "\<forall>c \<in> set us. CHR 0x0A \<notin> set (name c) \<and> CHR 0x0A \<notin> set (streamUrl c)"
  shows "split_newline (generateCorrectedM3U ms us) =
     (''#EXTM3U url-tvg='' @ [CHR 0x22] @ ''fr_epg.xml'' @ [CHR 0x22])
     # concat (map (\<lambda>r. [''#EXTINF:-1 tvg-id='' @ [CHR 0x22] @ epgId r @ [CHR 0x22] @ '',''
                            @ playlistName r,
                          match_streamUrl r]) ms)
     @ concat (map (\<lambda>c. [''#EXTINF:-1,'' @ name c, streamUrl c]) us)
     @ [[]]"
proof -
  have h: "(\<forall>r \<in> set ms. newline \<notin> set (epgId r) \<and> newline \<notin> set (playlistName r)
                       \<and> newline \<notin> set (match_streamUrl r))
        \<and> (\<forall>c \<in> set us. newline \<notin> set (name c) \<and> newline \<notin> set (streamUrl c))"
    using assms by (simp add: newline_def)
  have "split_newline (generateCorrectedM3U ms us) =
            m3u_header # concat (map match_lines ms) @ concat (map unmatched_lines us) @ [[]]"
    using partition_and_lines [of "[]" "[]" ms us] h by blast
  moreover have "match_lines = (\<lambda>r. [''#EXTINF:-1 tvg-id='' @ [CHR 0x22] @ epgId r @ [CHR 0x22]
                            @ '','' @ playlistName r, match_streamUrl r])"
    by (simp add: fun_eq_iff match_lines_def extinf_with_id_def dquote_def)
  moreover have "unmatched_lines = (\<lambda>c. [''#EXTINF:-1,'' @ name c, streamUrl c])"
    by (simp add: fun_eq_iff unmatched_lines_def extinf_without_id_def)
  moreover have "m3u_header = ''#EXTM3U url-tvg='' @ [CHR 0x22] @ ''fr_epg.xml'' @ [CHR 0x22]"
    by (simp add: m3u_header_def dquote_def)
  ultimately show ?thesis by simp
qed

lemma tvgIdMatch_line_without_id: "tvgIdMatch (''#EXTINF:-1,'' @ n) = tvgIdMatch n"
  by (simp add: tvgIdMatch_def dquote_def)

lemma tvgIdMatch_line_with_id:
  assumes "CHR 0x22 \<notin> set i"
  shows "tvgIdMatch (''#EXTINF:-1 tvg-id='' @ [CHR 0x22] @ i @ [CHR 0x22] @ '','' @ n) = Some i"
proof -
  have found: "find_after (''tvg-id='' @ [dquote])
          (''#EXTINF:-1 tvg-id='' @ [CHR 0x22] @ i @ [CHR 0x22] @ '','' @ n)
        = Some (i @ [CHR 0x22] @ '','' @ n)"
    by (simp add: dquote_def)
  have "takeWhile (\<lambda>c. c \<noteq> CHR 0x22) (i @ [CHR 0x22] @ '','' @ n)
        = i @ takeWhile (\<lambda>c. c \<noteq> CHR 0x22) ([CHR 0x22] @ '','' @ n)"
    by (rule takeWhile_append2) (use assms in auto)
  then have upto: "takeWhile (\<lambda>c. c \<noteq> CHR 0x22) (i @ [CHR 0x22] @ '','' @ n) = i"
    by simp
  show ?thesis
    using found upto by (simp add: tvgIdMatch_def dquote_def)
qed

lemma matches_fields:
  assumes "r \<in> set (matches (matchChannels ps es))"
  shows "(\<exists>p \<in> set ps. playlistName r = name p \<and> match_streamUrl r = streamUrl p)
       \<and> (\<exists>e \<in> set es. epgId r = epg_id e)"
proof -
  from assms obtain p where p: "p \<in> set ps" "is_matched es p" "r = result_for es p"
    by (auto simp: matches_matchChannels)
  obtain b s where bs: "best_candidate p es = (Some b, s)"
    using p(2) by (cases "best_candidate p es") (auto simp: is_matched_def)
  from best_candidate_Some [OF bs] obtain k where "k < length es" "b = es ! k"
    by blast
  then have "b \<in> set es" by simp
  moreover have "epgId r = epg_id b" "playlistName r = name p" "match_streamUrl r = streamUrl p"
    using p(3) bs by (simp_all add: result_for_def)
  ultimately show ?thesis
    using p(1) by blast
qed

lemma unmatched_subset: "set (unmatched (matchChannels ps es)) \<subseteq> set ps"
  by (auto simp: unmatched_matchChannels)

lemma pipeline_lines:
  assumes "\<forall>e \<in> set es. CHR 0x0A \<notin> set (epg_id e)"
  shows "split_newline (generateCorrectedM3U (matches (matchChannels (parseM3U content) es))
                                            (unmatched (matchChannels (parseM3U content) es))) =
     (''#EXTM3U url-tvg='' @ [CHR 0x22] @ ''fr_epg.xml'' @ [CHR 0x22])
     # concat (map (\<lambda>r. [''#EXTINF:-1 tvg-id='' @ [CHR 0x22] @ epgId r @ [CHR 0x22] @ '',''
                            @ playlistName r,
                          match_streamUrl r]) (matches (matchChannels (parseM3U content) es)))
     @ concat (map (\<lambda>c. [''#EXTINF:-1,'' @ name c, streamUrl c])
                 (unmatched (matchChannels (parseM3U content) es)))
     @ [[]]"
proof (rule generateCorrectedM3U_lines)
  show "\<forall>r \<in> set (matches (matchChannels (parseM3U content) es)).
          CHR 0x0A \<notin> set (epgId r) \<and> CHR 0x0A \<notin> set (playlistName r)
          \<and> CHR 0x0A \<notin> set (match_streamUrl r)"
  proof
    fix r assume "r \<in> set (matches (matchChannels (parseM3U content) es))"
    from matches_fields [OF this] obtain p e where
      "p \<in> set (parseM3U content)" "playlistName r = name p" "match_streamUrl r = streamUrl p"
      "e \<in> set es" "epgId r = epg_id e"
      by blast
    then show "CHR 0x0A \<notin> set (epgId r) \<and> CHR 0x0A \<notin> set (playlistName r)
          \<and> CHR 0x0A \<notin> set (match_streamUrl r)"
      using assms parseM3U_fields_no_newline [of p content] by (simp add: newline_def)
  qed
next
  show "\<forall>c \<in> set (unmatched (matchChannels (parseM3U content) es)).
          CHR 0x0A \<notin> set (name c) \<and> CHR 0x0A \<notin> set (streamUrl c)"
    using unmatched_subset [of "parseM3U content" es] parseM3U_fields_no_newline [of _ content]
    by (auto simp: newline_def)
qed

text \<open>
  Claim C5, as stated, fails in two places. The line of an unmatched channel is
  \<open>#EXTINF:-1,\<close> followed by the name as it was parsed, and the parser takes the name
  after the first comma of the directive: when an attribute value before \<open>tvg-id\<close>
  holds a comma, the name holds the \<open>tvg-id\<close> attribute and so does the line of the
  unmatched channel. And a matched channel takes three lines, not two, when the
  identifier of its EPG channel holds a line feed.
\<close>

theorem corrected_playlist_counterexample:
  "parseM3U attr_comma_playlist =
       [\<lparr>name = ''b'' @ [CHR 0x22] @ '' tvg-id='' @ [CHR 0x22] @ ''TF1.fr'' @ [CHR 0x22] @ '',TF1'',
         tvgId = ''TF1.fr'', streamUrl = ''http://a''\<rparr>]
   \<and> matches (matchChannels (parseM3U attr_comma_playlist) []) = []
   \<and> split_newline (generateCorrectedM3U
        (matches (matchChannels (parseM3U attr_comma_playlist) []))
        (unmatched (matchChannels (parseM3U attr_comma_playlist) []))) =
       [''#EXTM3U url-tvg='' @ [CHR 0x22] @ ''fr_epg.xml'' @ [CHR 0x22],
        ''#EXTINF:-1,b'' @ [CHR 0x22] @ '' tvg-id='' @ [CHR 0x22] @ ''TF1.fr'' @ [CHR 0x22] @ '',TF1'',
        ''http://a'', []]
   \<and> tvgIdMatch (''#EXTINF:-1,b'' @ [CHR 0x22] @ '' tvg-id='' @ [CHR 0x22] @ ''TF1.fr''
                    @ [CHR 0x22] @ '',TF1'') = Some ''TF1.fr''
   \<and> length (matches (matchChannels [tf1_channel] [linefeed_epg])) = 1
   \<and> split_newline (generateCorrectedM3U
        (matches (matchChannels [tf1_channel] [linefeed_epg]))
        (unmatched (matchChannels [tf1_channel] [linefeed_epg]))) =
       [''#EXTM3U url-tvg='' @ [CHR 0x22] @ ''fr_epg.xml'' @ [CHR 0x22],
        ''#EXTINF:-1 tvg-id='' @ [CHR 0x22] @ ''TF1'', ''fr'' @ [CHR 0x22] @ '',TF1'',
        ''http://example.org/tf1.m3u8'', []]"
  by code_simp

text \<open>
  Claim C5, amended. Every input channel is in exactly one of the two groups of
  \<open>matchChannels\<close>, in input order, none duplicated or dropped. The corrected
  playlist is the header line, then for every match the line
  \<open>#EXTINF:-1 tvg-id="\<close>, the EPG identifier, \<open>",\<close> and the name, followed by the
  line of its stream URL, then for every unmatched channel the line \<open>#EXTINF:-1,\<close>
  and the name, followed by the line of its stream URL, in the order of the two
  lists. When no field holds a line feed these are exactly the lines of the text,
  two for each channel, and that is so for the channels of a parsed playlist when
  no EPG identifier holds a line feed. Read back, the line of a match carries its
  EPG identifier as \<open>tvg-id\<close> when the identifier holds no double quote; the line of
  an unmatched channel carries a \<open>tvg-id\<close> only when the name itself holds one.
\<close>

theorem corrected_playlist_structure:
  "map source_channel (matches (matchChannels ps es)) = filter (is_matched es) ps
   \<and> unmatched (matchChannels ps es) = filter (\<lambda>p. \<not> is_matched es p) ps
   \<and> set (map source_channel (matches (matchChannels ps es)))
        \<inter> set (unmatched (matchChannels ps es)) = {}
   \<and> mset (map source_channel (matches (matchChannels ps es)))
        + mset (unmatched (matchChannels ps es)) = mset ps
   \<and> length (matches (matchChannels ps es)) + length (unmatched (matchChannels ps es))
        = length ps
   \<and> generateCorrectedM3U ms us =
        (''#EXTM3U url-tvg='' @ [CHR 0x22] @ ''fr_epg.xml'' @ [CHR 0x22] @ [CHR 0x0A])
        @ concat (map (\<lambda>r. ''#EXTINF:-1 tvg-id='' @ [CHR 0x22] @ epgId r @ [CHR 0x22] @ '',''
                             @ playlistName r @ [CHR 0x0A] @ match_streamUrl r @ [CHR 0x0A]) ms)
        @ concat (map (\<lambda>c. ''#EXTINF:-1,'' @ name c @ [CHR 0x0A] @ streamUrl c @ [CHR 0x0A]) us)
   \<and> ((\<forall>r \<in> set ms. CHR 0x0A \<notin> set (epgId r) \<and> CHR 0x0A \<notin> set (playlistName r)
                       \<and> CHR 0x0A \<notin> set (match_streamUrl r))
        \<and> (\<forall>c \<in> set us. CHR 0x0A \<notin> set (name c) \<and> CHR 0x0A \<notin> set (streamUrl c))
      \<longrightarrow> split_newline (generateCorrectedM3U ms us) =
            (''#EXTM3U url-tvg='' @ [CHR 0x22] @ ''fr_epg.xml'' @ [CHR 0x22])
            # concat (map (\<lambda>r. [''#EXTINF:-1 tvg-id='' @ [CHR 0x22] @ epgId r @ [CHR 0x22] @ '',''
                                   @ playlistName r,
                                 match_streamUrl r]) ms)
            @ concat (map (\<lambda>c. [''#EXTINF:-1,'' @ name c, streamUrl c]) us)
            @ [[]])
   \<and> ((\<forall>e \<in> set es. CHR 0x0A \<notin> set (epg_id e))
      \<longrightarrow> split_newline (generateCorrectedM3U
              (matches (matchChannels (parseM3U content) es))
              (unmatched (matchChannels (parseM3U content) es))) =
            (''#EXTM3U url-tvg='' @ [CHR 0x22] @ ''fr_epg.xml'' @ [CHR 0x22])
            # concat (map (\<lambda>r. [''#EXTINF:-1 tvg-id='' @ [CHR 0x22] @ epgId r @ [CHR 0x22] @ '',''
                                   @ playlistName r,
                                 match_streamUrl r])
                        (matches (matchChannels (parseM3U content) es)))
            @ concat (map (\<lambda>c. [''#EXTINF:-1,'' @ name c, streamUrl c])
                        (unmatched (matchChannels (parseM3U content) es)))
            @ [[]])
   \<and> (CHR 0x22 \<notin> set i
      \<longrightarrow> tvgIdMatch (''#EXTINF:-1 tvg-id='' @ [CHR 0x22] @ i @ [CHR 0x22] @ '','' @ l) = Some i)
   \<and> tvgIdMatch (''#EXTINF:-1,'' @ n) = tvgIdMatch n"
proof -
  note P = partition_and_lines [of ps es ms us]
  have p1: "map source_channel (matches (matchChannels ps es)) = filter (is_matched es) ps"
    using P by blast
  have p2: "unmatched (matchChannels ps es) = filter (\<lambda>p. \<not> is_matched es p) ps"
    using P by blast
  have p3: "set (map source_channel (matches (matchChannels ps es)))
        \<inter> set (unmatched (matchChannels ps es)) = {}"
    using P by blast
  have p4: "mset (map source_channel (matches (matchChannels ps es)))
        + mset (unmatched (matchChannels ps es)) = mset ps"
    using P by blast
  have p5: "length (matches (matchChannels ps es)) + length (unmatched (matchChannels ps es))
        = length ps"
    using P by blast
  show ?thesis
    using p1 p2 p3 p4 p5 generateCorrectedM3U_text [of ms us]
      generateCorrectedM3U_lines [of ms us] pipeline_lines [of es content]
      tvgIdMatch_line_with_id [of i l] tvgIdMatch_line_without_id [of n]
    by blast
qed

theorem corrected_playlist_structure_witness:
  "map source_channel (matches (matchChannels [tf1_channel, unknown_channel] [tf1_epg]))
     = [tf1_channel]
   \<and> unmatched (matchChannels [tf1_channel, unknown_channel] [tf1_epg]) = [unknown_channel]
   \<and> split_newline (generateCorrectedM3U [tf1_result] [unknown_channel]) =
       [''#EXTM3U url-tvg='' @ [CHR 0x22] @ ''fr_epg.xml'' @ [CHR 0x22],
        ''#EXTINF:-1 tvg-id='' @ [CHR 0x22] @ ''TF1.fr'' @ [CHR 0x22] @ '',TF1'',
        ''http://example.org/tf1.m3u8'',
        ''#EXTINF:-1,Zone X'', ''http://example.org/x.m3u8'',
        []]
   \<and> split_newline (generateCorrectedM3U
         (matches (matchChannels (parseM3U sample_playlist) [tf1_epg]))
         (unmatched (matchChannels (parseM3U sample_playlist) [tf1_epg]))) =
       [''#EXTM3U url-tvg='' @ [CHR 0x22] @ ''fr_epg.xml'' @ [CHR 0x22],
        ''#EXTINF:-1 tvg-id='' @ [CHR 0x22] @ ''TF1.fr'' @ [CHR 0x22] @ '',TF1'',
        ''http://a'',
        []]
   \<and> tvgIdMatch (''#EXTINF:-1 tvg-id='' @ [CHR 0x22] @ ''TF1.fr'' @ [CHR 0x22] @ '','' @ ''TF1'')
       = Some ''TF1.fr''
   \<and> tvgIdMatch (''#EXTINF:-1,'' @ ''Zone X'') = None"
proof -
  note T = corrected_playlist_structure
             [where ps = "[tf1_channel, unknown_channel]" and es = "[tf1_epg]"
                and ms = "[tf1_result]" and us = "[unknown_channel]"
                and content = sample_playlist and i = "''TF1.fr''" and l = "''TF1''"
                and n = "''Zone X''"]
  have h: "(\<forall>r \<in> set [tf1_result]. CHR 0x0A \<notin> set (epgId r) \<and> CHR 0x0A \<notin> set (playlistName r)
                       \<and> CHR 0x0A \<notin> set (match_streamUrl r))
        \<and> (\<forall>c \<in> set [unknown_channel]. CHR 0x0A \<notin> set (name c) \<and> CHR 0x0A \<notin> set (streamUrl c))"
    by code_simp
  have he: "\<forall>e \<in> set [tf1_epg]. CHR 0x0A \<notin> set (epg_id e)"
    by code_simp
  have hq: "CHR 0x22 \<notin> set ''TF1.fr''"
    by simp
  have f: "filter (is_matched [tf1_epg]) [tf1_channel, unknown_channel] = [tf1_channel]"
    "filter (\<lambda>p. \<not> is_matched [tf1_epg] p) [tf1_channel, unknown_channel] = [unknown_channel]"
    by code_simp+
  have v: "epgId tf1_result = ''TF1.fr''" "playlistName tf1_result = ''TF1''"
    "match_streamUrl tf1_result = ''http://example.org/tf1.m3u8''"
    "name unknown_channel = ''Zone X''" "streamUrl unknown_channel = ''http://example.org/x.m3u8''"
    by (simp_all add: tf1_result_def unknown_channel_def)
  have pm: "matches (matchChannels (parseM3U sample_playlist) [tf1_epg]) =
              [\<lparr>playlistName = ''TF1'', playlistTvgId = [], epgId = ''TF1.fr'', epgName = ''TF1'',
                score = 1, match_streamUrl = ''http://a''\<rparr>]"
    "unmatched (matchChannels (parseM3U sample_playlist) [tf1_epg]) = []"
    by code_simp+
  have nz: "tvgIdMatch ''Zone X'' = None"
    by code_simp
  have a: "map source_channel (matches (matchChannels [tf1_channel, unknown_channel] [tf1_epg]))
             = [tf1_channel]"
    by (rule trans [OF conjunct1 [OF T] f(1)])
  have b: "unmatched (matchChannels [tf1_channel, unknown_channel] [tf1_epg]) = [unknown_channel]"
    by (rule trans [OF conjunct1 [OF conjunct2 [OF T]] f(2)])
  have "split_newline (generateCorrectedM3U [tf1_result] [unknown_channel]) =
            (''#EXTM3U url-tvg='' @ [CHR 0x22] @ ''fr_epg.xml'' @ [CHR 0x22])
            # concat (map (\<lambda>r. [''#EXTINF:-1 tvg-id='' @ [CHR 0x22] @ epgId r @ [CHR 0x22] @ '',''
                                   @ playlistName r,
                                 match_streamUrl r]) [tf1_result])
            @ concat (map (\<lambda>c. [''#EXTINF:-1,'' @ name c, streamUrl c]) [unknown_channel])
            @ [[]]"
    using T h by blast
  then have c: "split_newline (generateCorrectedM3U [tf1_result] [unknown_channel]) =
       [''#EXTM3U url-tvg='' @ [CHR 0x22] @ ''fr_epg.xml'' @ [CHR 0x22],
        ''#EXTINF:-1 tvg-id='' @ [CHR 0x22] @ ''TF1.fr'' @ [CHR 0x22] @ '',TF1'',
        ''http://example.org/tf1.m3u8'',
        ''#EXTINF:-1,Zone X'', ''http://example.org/x.m3u8'',
        []]"
    using v by simp
  have "split_newline (generateCorrectedM3U
              (matches (matchChannels (parseM3U sample_playlist) [tf1_epg]))
              (unmatched (matchChannels (parseM3U sample_playlist) [tf1_epg]))) =
            (''#EXTM3U url-tvg='' @ [CHR 0x22] @ ''fr_epg.xml'' @ [CHR 0x22])
            # concat (map (\<lambda>r. [''#EXTINF:-1 tvg-id='' @ [CHR 0x22] @ epgId r @ [CHR 0x22] @ '',''
                                   @ playlistName r,
                                 match_streamUrl r])
                        (matches (matchChannels (parseM3U sample_playlist) [tf1_epg])))
            @ concat (map (\<lambda>c. [''#EXTINF:-1,'' @ name c, streamUrl c])
                        (unmatched (matchChannels (parseM3U sample_playlist) [tf1_epg])))
            @ [[]]"
    using T he by blast
  then have d: "split_newline (generateCorrectedM3U
         (matches (matchChannels (parseM3U sample_playlist) [tf1_epg]))
         (unmatched (matchChannels (parseM3U sample_playlist) [tf1_epg]))) =
       [''#EXTM3U url-tvg='' @ [CHR 0x22] @ ''fr_epg.xml'' @ [CHR 0x22],
        ''#EXTINF:-1 tvg-id='' @ [CHR 0x22] @ ''TF1.fr'' @ [CHR 0x22] @ '',TF1'',
        ''http://a'',
        []]"
    unfolding pm by simp
  have e: "tvgIdMatch (''#EXTINF:-1 tvg-id='' @ [CHR 0x22] @ ''TF1.fr'' @ [CHR 0x22] @ '','' @ ''TF1'')
       = Some ''TF1.fr''"
    using T hq by blast
  have "tvgIdMatch (''#EXTINF:-1,'' @ ''Zone X'') = tvgIdMatch ''Zone X''"
    using T by blast
  then have g: "tvgIdMatch (''#EXTINF:-1,'' @ ''Zone X'') = None"
    using nz by simp
  show ?thesis
    using a b c d e g by blast
qed

section \<open>The sections of the clean playlist\<close>

lemma generateCleanM3U_unlines:
  "m3u (generateCleanM3U chs) =
     unlines ([m3u_header, [], ''# CHANNELS WITH EPG'']
              @ concat (map good_lines (filter (\<lambda>ch. hasTvgId ch) chs))
              @ [[], ''# CHANNELS WITHOUT EPG'']
              @ concat (map unknown_lines (take 10 (filter (\<lambda>ch. \<not> hasTvgId ch) chs))))"
proof -
  let ?good = "filter (\<lambda>ch. hasTvgId ch) chs"
  let ?unknown = "take 10 (filter (\<lambda>ch. \<not> hasTvgId ch) chs)"
  have "m3u (generateCleanM3U chs) =
        ((((m3u_header @ [newline, newline]) @ ''# CHANNELS WITH EPG'' @ [newline])
            @ concat (map (\<lambda>ch. unlines (good_lines ch)) ?good))
           @ [newline] @ ''# CHANNELS WITHOUT EPG'' @ [newline])
          @ concat (map (\<lambda>ch. unlines (unknown_lines ch)) ?unknown)"
    unfolding generateCleanM3U_def Let_def fold_append_two
    by (simp add: unlines_def good_lines_def unknown_lines_def)
  also have "\<dots> = unlines [m3u_header, [], ''# CHANNELS WITH EPG'']
                    @ unlines (concat (map good_lines ?good))
                    @ unlines [[], ''# CHANNELS WITHOUT EPG'']
                    @ unlines (concat (map unknown_lines ?unknown))"
    by (simp add: unlines_concat_map) (simp add: unlines_def)
  also have "\<dots> = unlines ([m3u_header, [], ''# CHANNELS WITH EPG'']
              @ concat (map good_lines ?good)
              @ [[], ''# CHANNELS WITHOUT EPG'']
              @ concat (map unknown_lines ?unknown))"
    by (simp only: unlines_append)
  finally show ?thesis .
qed

text \<open>
  Claim C8. The clean playlist is the header line and an empty line, then the
  comment line of the resolved section followed by two lines for every channel
  with \<open>hasTvgId\<close>, then an empty line and the comment line of the unresolved
  section followed by two lines for each of the first ten channels without
  \<open>hasTvgId\<close>, in input order: at most ten channels are in the unresolved section.
\<close>

theorem generateCleanM3U_sections:
  "goodChannels (generateCleanM3U chs) = filter (\<lambda>ch. hasTvgId ch) chs
   \<and> unknownChannels (generateCleanM3U chs) = filter (\<lambda>ch. \<not> hasTvgId ch) chs
   \<and> m3u (generateCleanM3U chs) =
       unlines ([m3u_header, [], ''# CHANNELS WITH EPG'']
                @ concat (map good_lines (goodChannels (generateCleanM3U chs)))
                @ [[], ''# CHANNELS WITHOUT EPG'']
                @ concat (map unknown_lines (take 10 (unknownChannels (generateCleanM3U chs)))))
   \<and> length (take 10 (unknownChannels (generateCleanM3U chs))) \<le> 10
   \<and> length (take 10 (unknownChannels (generateCleanM3U chs)))
       = min 10 (length (filter (\<lambda>ch. \<not> hasTvgId ch) chs))"
proof -
  have g: "goodChannels (generateCleanM3U chs) = filter (\<lambda>ch. hasTvgId ch) chs"
    by (simp add: generateCleanM3U_def Let_def)
  have u: "unknownChannels (generateCleanM3U chs) = filter (\<lambda>ch. \<not> hasTvgId ch) chs"
    by (simp add: generateCleanM3U_def Let_def)
  have m: "m3u (generateCleanM3U chs) =
       unlines ([m3u_header, [], ''# CHANNELS WITH EPG'']
                @ concat (map good_lines (goodChannels (generateCleanM3U chs)))
                @ [[], ''# CHANNELS WITHOUT EPG'']
                @ concat (map unknown_lines (take 10 (unknownChannels (generateCleanM3U chs)))))"
    unfolding g u by (rule generateCleanM3U_unlines)
  have l: "length (take 10 (unknownChannels (generateCleanM3U chs))) \<le> 10"
    "length (take 10 (unknownChannels (generateCleanM3U chs)))
       = min 10 (length (filter (\<lambda>ch. \<not> hasTvgId ch) chs))"
    unfolding u by (simp_all add: min.commute)
  show ?thesis
    using g u m l by blast
qed

theorem generateCleanM3U_sections_witness:
  "goodChannels (generateCleanM3U (mapped_tf1 # replicate 11 mapped_unknown)) = [mapped_tf1]
   \<and> length (unknownChannels (generateCleanM3U (mapped_tf1 # replicate 11 mapped_unknown))) = 11
   \<and> length (take 10 (unknownChannels
         (generateCleanM3U (mapped_tf1 # replicate 11 mapped_unknown)))) = 10
   \<and> m3u (generateCleanM3U (mapped_tf1 # replicate 11 mapped_unknown)) =
       unlines ([m3u_header, [], ''# CHANNELS WITH EPG'']
                @ good_lines mapped_tf1
                @ [[], ''# CHANNELS WITHOUT EPG'']
                @ concat (replicate 10 (unknown_lines mapped_unknown)))"
proof -
  let ?chs = "mapped_tf1 # replicate 11 mapped_unknown"
  have f: "filter (\<lambda>ch. hasTvgId ch) ?chs = [mapped_tf1]"
    "filter (\<lambda>ch. \<not> hasTvgId ch) ?chs = replicate 11 mapped_unknown"
    by (simp_all add: mapped_tf1_def mapped_unknown_def)
  note T = generateCleanM3U_sections [of ?chs]
  have g: "goodChannels (generateCleanM3U ?chs) = [mapped_tf1]"
    by (rule trans [OF conjunct1 [OF T] f(1)])
  have u: "unknownChannels (generateCleanM3U ?chs) = replicate 11 mapped_unknown"
    by (rule trans [OF conjunct1 [OF conjunct2 [OF T]] f(2)])
  have m: "m3u (generateCleanM3U ?chs) =
       unlines ([m3u_header, [], ''# CHANNELS WITH EPG'']
                @ concat (map good_lines (goodChannels (generateCleanM3U ?chs)))
                @ [[], ''# CHANNELS WITHOUT EPG'']
                @ concat (map unknown_lines (take 10 (unknownChannels (generateCleanM3U ?chs)))))"
    by (rule conjunct1 [OF conjunct2 [OF conjunct2 [OF T]]])
  have t: "take 10 (replicate 11 mapped_unknown) = replicate 10 mapped_unknown"
    by simp
  have m': "m3u (generateCleanM3U ?chs) =
       unlines ([m3u_header, [], ''# CHANNELS WITH EPG'']
                @ good_lines mapped_tf1
                @ [[], ''# CHANNELS WITHOUT EPG'']
                @ concat (replicate 10 (unknown_lines mapped_unknown)))"
    using m unfolding g u t by simp
  show ?thesis
    using g u m' by simp
qed



section \<open>No annotation is left in a cleaned name\<close>

lemma match_group_suffix: "match_group a b s = Some r \<Longrightarrow> suffix r s"
proof -
  assume m: "match_group a b s = Some r"
  obtain d ds where d: "dropWhile is_space s = d # ds"
    using m by (cases "dropWhile is_space s") (simp_all add: match_group_def)
  have r: "r = tl (dropWhile (\<lambda>x. x \<noteq> b) ds)"
    using m d by (simp add: match_group_def split: if_splits)
  have "suffix r (dropWhile (\<lambda>x. x \<noteq> b) ds)"
    unfolding r by simp
  also have "suffix (dropWhile (\<lambda>x. x \<noteq> b) ds) ds"
    by (rule suffix_dropWhile)
  also have "suffix ds (d # ds)"
    by (simp add: suffix_ConsI)
  also have "suffix (d # ds) s"
    using suffix_dropWhile [of is_space s] d by simp
  finally show ?thesis .
qed

lemma subseq_remove_groups: "subseq (remove_groups a b s) s"
proof (induction a b s rule: remove_groups.induct)
  case (1 a b)
  show ?case by simp
next
  case (2 a b c cs)
  show ?case
  proof (cases "match_group a b (c # cs)")
    case None
    then show ?thesis using 2 by simp
  next
    case (Some r)
    then have "subseq (remove_groups a b r) r"
      by (rule 2)
    moreover have "subseq r (c # cs)"
      using match_group_suffix [OF Some] by (rule suffix_imp_subseq)
    ultimately have "subseq (remove_groups a b r) (c # cs)"
      by (rule subseq_order.trans)
    then show ?thesis using Some by simp
  qed
qed

lemma subseq_set: "subseq xs ys \<Longrightarrow> set xs \<subseteq> set ys"
  by (auto elim: list_emb_set)

text \<open>
  After one replacement pass no opening character is followed, anywhere later, by a
  closing character: every group has been removed.
\<close>

lemma remove_groups_complete:
  "\<not> is_space a \<Longrightarrow> \<not> subseq [a, b] (remove_groups a b s)"
proof (induction a b s rule: remove_groups.induct)
  case (1 a b)
  show ?case by simp
next
  case (2 a b c cs)
  show ?case
  proof (cases "match_group a b (c # cs)")
    case (Some r)
    then show ?thesis using 2 by simp
  next
    case None
    have ih: "\<not> subseq [a, b] (remove_groups a b cs)"
      using 2 None by simp
    show ?thesis
    proof (cases "c = a")
      case False
      then show ?thesis using None ih by simp
    next
      case True
      then have "dropWhile is_space (c # cs) = c # cs"
        using 2(3) by simp
      then have "b \<notin> set cs"
        using None True by (simp add: match_group_def split: if_splits)
      then have "b \<notin> set (remove_groups a b cs)"
        using subseq_set [OF subseq_remove_groups [of a b cs]] by auto
      then show ?thesis
        using None True by (simp add: subseq_singleton_left)
    qed
  qed
qed

lemma subseq_trim: "subseq (trim s) s"
proof -
  have "suffix (dropWhile is_space (rev (dropWhile is_space s))) (rev (dropWhile is_space s))"
    by (rule suffix_dropWhile)
  then have "prefix (trim s) (dropWhile is_space s)"
    by (simp add: suffix_to_prefix trim_def)
  then have "subseq (trim s) (dropWhile is_space s)"
    by (rule prefix_imp_subseq)
  moreover have "subseq (dropWhile is_space s) s"
    using suffix_dropWhile [of is_space s] by (rule suffix_imp_subseq)
  ultimately show ?thesis
    by (rule subseq_order.trans)
qed

lemma clean_name_no_groups:
  "\<not> subseq ''()'' (clean_name s) \<and> \<not> subseq ''[]'' (clean_name s)"
proof -
  let ?p = "remove_groups (CHR ''('') (CHR '')'') s"
  let ?b = "remove_groups (CHR ''['') (CHR '']'') ?p"
  have sp: "\<not> is_space (CHR ''('')" "\<not> is_space (CHR ''['')"
    by (simp_all add: is_space_def)
  have b_p: "subseq (clean_name s) ?b" "subseq ?b ?p"
    unfolding clean_name_def by (rule subseq_trim, rule subseq_remove_groups)
  have "\<not> subseq ''()'' ?p"
    using remove_groups_complete [OF sp(1)] by simp
  then have par: "\<not> subseq ''()'' (clean_name s)"
    using b_p subseq_order.trans by blast
  have "\<not> subseq ''[]'' ?b"
    using remove_groups_complete [OF sp(2)] by simp
  then have bra: "\<not> subseq ''[]'' (clean_name s)"
    using b_p(1) subseq_order.trans by blast
  show ?thesis
    using par bra by simp
qed

section \<open>The override lookup\<close>

lemma manualMappings_values_nonempty: "map_of manualMappings k = Some v \<Longrightarrow> v \<noteq> []"
proof -
  assume "map_of manualMappings k = Some v"
  then have "(k, v) \<in> set manualMappings"
    by (rule map_of_SomeD)
  then show "v \<noteq> []"
    by (auto simp: manualMappings_def)
qed

lemma manualMappings_get_own:
  "map_of manualMappings k = Some v \<Longrightarrow> manualMappings_get k = Str v \<and> truthy (Str v)"
  using manualMappings_values_nonempty [of k v]
  by (simp add: manualMappings_get_def truthy_def)

lemma manualMappings_get_absent:
  "map_of manualMappings k = None \<Longrightarrow> k \<notin> set object_prototype_keys \<Longrightarrow>
   manualMappings_get k = Undefined"
  by (simp add: manualMappings_get_def)

text \<open>
  For a channel whose name and cleaned name are not property names of
  \<open>Object.prototype\<close>, the identifier is the entry of the table for the cleaned
  name, else the entry for the original name, else the empty string, and \<open>hasTvgId\<close>
  holds exactly when one of the two lookups succeeds.
\<close>

lemma override_lookup_outside_prototype:
  assumes "c \<notin> set object_prototype_keys" and "n \<notin> set object_prototype_keys"
  shows "js_or (manualMappings_get c) (js_or (manualMappings_get n) (Str [])) =
           (case map_of manualMappings c of
              Some v \<Rightarrow> Str v
            | None \<Rightarrow> (case map_of manualMappings n of Some v \<Rightarrow> Str v | None \<Rightarrow> Str []))
       \<and> (truthy (js_or (manualMappings_get c) (js_or (manualMappings_get n) (Str [])))
            \<longleftrightarrow> map_of manualMappings c \<noteq> None \<or> map_of manualMappings n \<noteq> None)"
proof (cases "map_of manualMappings c")
  case (Some v)
  then show ?thesis
    using manualMappings_get_own [of c v] by (simp add: js_or_def)
next
  case None
  note c = None manualMappings_get_absent [OF None assms(1)]
  show ?thesis
  proof (cases "map_of manualMappings n")
    case (Some v)
    then show ?thesis
      using c manualMappings_get_own [of n v] by (simp add: js_or_def truthy_def)
  next
    case None
    then show ?thesis
      using c manualMappings_get_absent [OF None assms(2)] by (simp add: js_or_def truthy_def)
  qed
qed

lemma clean_name_example: "clean_name ''TF1 HD (1080p)'' = ''TF1 HD''"
  by code_simp

lemma override_example:
  "parseM3U_mapped (''#EXTINF:-1,TF1 HD (1080p)'' @ [newline] @ ''http://a'') =
     [\<lparr>originalName = ''TF1 HD (1080p)'', cleanName = ''TF1 HD'', mapped_tvgId = Str ''TF1.fr'',
       mapped_streamUrl = ''http://a'', hasTvgId = True\<rparr>]"
  by code_simp

text \<open>
  Claim C6 fails on the code for a channel named like a property that every object
  inherits. The table has no entry for \<open>constructor\<close>, but \<open>manualMappings[cleanName]\<close>
  reads the inherited property, which is truthy: the resolved identifier is that
  built-in function instead of the empty string, and \<open>hasTvgId\<close> is true although
  neither lookup in the table succeeds.
\<close>

theorem inherited_property_resolves:
  "map_of manualMappings ''constructor'' = None
   \<and> clean_name ''constructor'' = ''constructor''
   \<and> parseM3U_mapped (''#EXTINF:-1,constructor'' @ [newline] @ ''http://a'') =
       [\<lparr>originalName = ''constructor'', cleanName = ''constructor'',
         mapped_tvgId = Inherited ''constructor'',
         mapped_streamUrl = ''http://a'', hasTvgId = True\<rparr>]"
  by code_simp

end
